theory Spec2Isabelle
  imports Main
begin

section \<open>Byte streams\<close>

text \<open>
  A file is the list of its bytes; a byte is a \<^typ>\<open>char\<close> (an 8-bit value), so
  that stored names can be written as string literals. A Python \<open>str\<close> obtained by a
  successful UTF-8 decode is represented by its UTF-8 bytes: the operations the code
  applies to such strings (comparison with the empty string, replacing or searching for
  ASCII characters, concatenation) act on that encoding exactly as on the code points.

  An open binary file that is only read forward is modelled by its unread suffix;
  \<open>f.read(n)\<close> returns \<open>take n f\<close> and leaves \<open>drop n f\<close>.
\<close>

type_synonym bytes = string

datatype py_error = StructError | TypeError | OSError

subsection \<open>pbo\_parser.py: primitive readers\<close>

text \<open>
  Well-formedness of UTF-8 as \<open>bytes.decode('utf-8')\<close> checks it (strict mode):
  shortest form only, no surrogates, nothing above U+10FFFF.
\<close>

definition utf8_cont :: "nat \<Rightarrow> bool" where
  "utf8_cont b = (0x80 \<le> b \<and> b \<le> 0xBF)"

fun utf8_ok :: "nat list \<Rightarrow> bool" where
  "utf8_ok [] = True"
| "utf8_ok (a # bs) =
     (if a < 0x80 then utf8_ok bs
      else if 0xC2 \<le> a \<and> a \<le> 0xDF then
        (case bs of b # r \<Rightarrow> utf8_cont b \<and> utf8_ok r | _ \<Rightarrow> False)
      else if 0xE0 \<le> a \<and> a \<le> 0xEF then
        (case bs of b # c # r \<Rightarrow>
           (if a = 0xE0 then 0xA0 \<le> b \<and> b \<le> 0xBF
            else if a = 0xED then 0x80 \<le> b \<and> b \<le> 0x9F
            else utf8_cont b) \<and> utf8_cont c \<and> utf8_ok r
         | _ \<Rightarrow> False)
      else if 0xF0 \<le> a \<and> a \<le> 0xF4 then
        (case bs of b # c # d # r \<Rightarrow>
           (if a = 0xF0 then 0x90 \<le> b \<and> b \<le> 0xBF
            else if a = 0xF4 then 0x80 \<le> b \<and> b \<le> 0x8F
            else utf8_cont b) \<and> utf8_cont c \<and> utf8_cont d \<and> utf8_ok r
         | _ \<Rightarrow> False)
      else False)"

text \<open>
  What \<open>read_asciiz\<close> returns: the decoded text, or the raw bytes when decoding
  raises \<open>UnicodeDecodeError\<close>.
\<close>

datatype pbo_name = Text string | Raw bytes

definition decode_name :: "bytes \<Rightarrow> pbo_name" where
  "decode_name bytestring =
     (if utf8_ok (map of_char bytestring) then Text bytestring else Raw bytestring)"

text \<open>
  \<open>read_asciiz\<close> reads one byte at a time and keeps the bytes before the first
  \<open>\0\<close>; the terminator is consumed. At end of file the iteration simply stops:
  an unterminated string is returned as it stands and nothing is raised.
\<close>

definition read_asciiz :: "bytes \<Rightarrow> pbo_name \<times> bytes" where
  "read_asciiz f =
     (let bytestring = takeWhile (\<lambda>c. c \<noteq> CHR 0x00) f
      in (decode_name bytestring, drop (Suc (length bytestring)) f))"

text \<open>\<open>struct.unpack(b'<L', data)\<close> on exactly four bytes.\<close>

definition unpack_ulong :: "bytes \<Rightarrow> nat" where
  "unpack_ulong data =
     of_char (data ! 0) + 256 * of_char (data ! 1)
       + 65536 * of_char (data ! 2) + 16777216 * of_char (data ! 3)"

text \<open>
  \<open>read_ulong\<close>: \<open>f.read(4)\<close> returns fewer than four bytes at end of file and
  \<open>struct.unpack\<close> then raises \<open>struct.error\<close>.
\<close>

definition read_ulong :: "bytes \<Rightarrow> py_error + (nat \<times> bytes)" where
  "read_ulong f =
     (let data = take 4 f
      in if length data \<noteq> 4 then Inl StructError
         else Inr (unpack_ulong data, drop 4 f))"

subsection \<open>pbo\_parser.py: header records\<close>

record pbo_header_entry =
  filename :: pbo_name
  packing_method :: nat
  original_size :: nat
  reserved :: nat
  timestamp :: nat
  data_size :: nat
  data_offset :: nat

definition is_boundary :: "pbo_header_entry \<Rightarrow> bool" where
  "is_boundary e = (filename e = Text [])"

text \<open>\<open>PBOHeaderEntry.parse_from_file\<close>; the constructor sets \<open>data_offset = 0\<close>.\<close>

definition parse_entry :: "bytes \<Rightarrow> py_error + (pbo_header_entry \<times> bytes)" where
  "parse_entry f =
     (case read_asciiz f of (name, f0) \<Rightarrow>
      case read_ulong f0 of Inl e \<Rightarrow> Inl e | Inr (pm, f1) \<Rightarrow>
      case read_ulong f1 of Inl e \<Rightarrow> Inl e | Inr (os, f2) \<Rightarrow>
      case read_ulong f2 of Inl e \<Rightarrow> Inl e | Inr (rs, f3) \<Rightarrow>
      case read_ulong f3 of Inl e \<Rightarrow> Inl e | Inr (ts, f4) \<Rightarrow>
      case read_ulong f4 of Inl e \<Rightarrow> Inl e | Inr (ds, f5) \<Rightarrow>
        Inr (\<lparr>filename = name, packing_method = pm, original_size = os,
              reserved = rs, timestamp = ts, data_size = ds, data_offset = 0\<rparr>, f5))"

record pbo_header_extension =
  ext_entry :: pbo_header_entry
  strings :: "pbo_name list"

lemma read_asciiz_length: "length (snd (read_asciiz f)) \<le> length f"
  by (simp add: read_asciiz_def Let_def)

lemma read_asciiz_consumes:
  "fst (read_asciiz f) \<noteq> Text [] \<Longrightarrow> length (snd (read_asciiz f)) < length f"
  by (cases f) (auto simp: read_asciiz_def Let_def decode_name_def)

text \<open>
  The loop of \<open>PBOHeaderExtension.parse_from_file\<close>: \<open>s\<close> is the string read
  last, \<open>f\<close> the file after it.
\<close>

function ext_loop :: "pbo_name list \<Rightarrow> pbo_name \<Rightarrow> bytes \<Rightarrow> pbo_name list \<times> bytes" where
  "ext_loop strs s f =
     (if s \<noteq> Text [] then
        (case read_asciiz f of (s', f') \<Rightarrow> ext_loop (strs @ [s]) s' f')
      else (strs, f))"
  by pat_completeness auto
termination
proof (relation "measure (\<lambda>(strs, s, f). 2 * length f + (if s \<noteq> Text [] then 1 else 0))",
    goal_cases)
  case 1
  show ?case by simp
next
  case (2 strs s f s' f')
  then have r: "read_asciiz f = (s', f')" by simp
  have "length f' \<le> length f"
    using read_asciiz_length [of f] r by simp
  moreover have "s' \<noteq> Text [] \<Longrightarrow> length f' < length f"
    using read_asciiz_consumes [of f] r by simp
  ultimately have "2 * length f' + (if s' \<noteq> Text [] then 1 else 0) < 2 * length f + 1"
    by (cases "s' = Text []") simp_all
  then show ?case using 2(1) by simp
qed

declare ext_loop.simps [simp del]

lemma ext_loop_stop [simp]: "ext_loop strs (Text []) f = (strs, f)"
  by (simp add: ext_loop.simps)

lemma ext_loop_step:
  "s \<noteq> Text [] \<Longrightarrow>
     ext_loop strs s f = (case read_asciiz f of (s', f') \<Rightarrow> ext_loop (strs @ [s]) s' f')"
  by (subst ext_loop.simps) simp

definition parse_extension :: "bytes \<Rightarrow> pbo_header_entry \<Rightarrow> pbo_header_extension \<times> bytes" where
  "parse_extension f pbo_entry =
     (case read_asciiz f of (s, f') \<Rightarrow>
      case ext_loop [] s f' of (strs, f'') \<Rightarrow>
        (\<lparr>ext_entry = pbo_entry, strings = strs\<rparr>, f''))"

record pbo_header =
  header_extension :: "pbo_header_extension option"
  pbo_entries :: "pbo_header_entry list"
  eoh_boundary :: "pbo_header_entry option"

lemma read_ulong_length: "read_ulong f = Inr (v, f') \<Longrightarrow> length f' + 4 = length f"
  by (auto simp: read_ulong_def Let_def split: if_splits)

lemma parse_entry_length:
  assumes "parse_entry f = Inr (e, f')"
  shows "length f' + 20 \<le> length f"
proof -
  obtain name f0 where a: "read_asciiz f = (name, f0)"
    by (cases "read_asciiz f")
  have l0: "length f0 \<le> length f"
    using read_asciiz_length [of f] a by simp
  from assms a obtain pm f1 os f2 rs f3 ts f4 ds where
    r: "read_ulong f0 = Inr (pm, f1)" "read_ulong f1 = Inr (os, f2)"
       "read_ulong f2 = Inr (rs, f3)" "read_ulong f3 = Inr (ts, f4)"
       "read_ulong f4 = Inr (ds, f')"
    by (auto simp: parse_entry_def split: sum.splits prod.splits)
  show ?thesis
    using l0 r [THEN read_ulong_length] by simp
qed

lemma ext_loop_length: "ext_loop strs s f = (r, f') \<Longrightarrow> length f' \<le> length f"
proof (induction strs s f rule: ext_loop.induct)
  case (1 strs s f)
  show ?case
  proof (cases "s = Text []")
    case True
    with "1.prems" show ?thesis by simp
  next
    case False
    obtain s' f1 where a: "read_asciiz f = (s', f1)"
      by (cases "read_asciiz f")
    have "length f1 \<le> length f"
      using read_asciiz_length [of f] a by simp
    moreover have "ext_loop (strs @ [s]) s' f1 = (r, f')"
      using "1.prems" False a by (simp add: ext_loop_step)
    then have "length f' \<le> length f1"
      by (rule "1.IH" [OF False a [symmetric]])
    ultimately show ?thesis by simp
  qed
qed

lemma parse_extension_length:
  "parse_extension f e = (x, f') \<Longrightarrow> length f' \<le> length f"
proof -
  assume a: "parse_extension f e = (x, f')"
  obtain s f0 where b: "read_asciiz f = (s, f0)"
    by (cases "read_asciiz f")
  obtain strs f1 where c: "ext_loop [] s f0 = (strs, f1)"
    by (cases "ext_loop [] s f0")
  have "f1 = f'"
    using a b c by (simp add: parse_extension_def)
  moreover have "length f0 \<le> length f"
    using read_asciiz_length [of f] b by simp
  moreover have "length f1 \<le> length f0"
    using ext_loop_length [OF c] .
  ultimately show ?thesis by simp
qed

text \<open>
  The \<open>while True\<close> loop of \<open>PBOHeader.parse_from_file\<close>, with its local
  variables as arguments. It ends by the \<open>break\<close> at a boundary that is not the
  first record, or by the exception of a reader.
\<close>

function header_loop ::
  "pbo_header_entry list \<Rightarrow> pbo_header_extension option \<Rightarrow> bool \<Rightarrow> bytes
     \<Rightarrow> py_error + (pbo_header \<times> bytes)" where
  "header_loop header_entries header_ext first_entry f =
     (case parse_entry f of
        Inl e \<Rightarrow> Inl e
      | Inr (entry, f1) \<Rightarrow>
          if \<not> is_boundary entry then
            header_loop (header_entries @ [entry]) header_ext False f1
          else if first_entry then
            (case parse_extension f1 entry of
               (ext, f2) \<Rightarrow> header_loop header_entries (Some ext) False f2)
          else
            Inr (\<lparr>header_extension = header_ext, pbo_entries = header_entries,
                  eoh_boundary = Some entry\<rparr>, f1))"
  by pat_completeness auto
termination
proof (relation "measure (\<lambda>(es, x, b, f). length f)", goal_cases)
  case 1
  show ?case by simp
next
  case (2 es x b f r entry f1)
  then have "parse_entry f = Inr (entry, f1)" by simp
  from parse_entry_length [OF this] show ?case by simp
next
  case (3 es x b f r entry f1 ext f2)
  then have a: "parse_entry f = Inr (entry, f1)"
    and b: "parse_extension f1 entry = (ext, f2)" by simp_all
  from parse_entry_length [OF a] parse_extension_length [OF b] show ?case by simp
qed

declare header_loop.simps [simp del]

definition parse_from_file :: "bytes \<Rightarrow> py_error + (pbo_header \<times> bytes)" where
  "parse_from_file f = header_loop [] None True f"

subsection \<open>pbo\_parser.py: the parser object\<close>

record pbo_parser =
  header :: "pbo_header option"
  entries :: "pbo_header_entry list"

definition new_parser :: pbo_parser where
  "new_parser = \<lparr>header = None, entries = []\<rparr>"

text \<open>
  The offset loop of \<open>parse_pbo\<close>. The entry objects are updated in place, so the
  list held by the header and the list \<open>self.entries\<close> see the same offsets.
\<close>

fun assign_offsets :: "nat \<Rightarrow> pbo_header_entry list \<Rightarrow> pbo_header_entry list" where
  "assign_offsets current_pos [] = []"
| "assign_offsets current_pos (entry # es) =
     (if \<not> is_boundary entry then
        entry\<lparr>data_offset := current_pos\<rparr> # assign_offsets (current_pos + data_size entry) es
      else entry # assign_offsets current_pos es)"

text \<open>
  \<open>parse_pbo\<close>. The argument is the content of the file at \<open>pbo_path\<close>, or
  \<open>None\<close> when \<open>open\<close> raises. \<open>f.tell()\<close> after the header is the number
  of bytes consumed. Every exception ends in the \<open>except\<close> branch, which returns
  \<open>False\<close> and has assigned nothing.
\<close>

definition parse_pbo :: "pbo_parser \<Rightarrow> bytes option \<Rightarrow> bool \<times> pbo_parser" where
  "parse_pbo self file =
     (case file of
        None \<Rightarrow> (False, self)
      | Some content \<Rightarrow>
          (case parse_from_file content of
             Inl e \<Rightarrow> (False, self)
           | Inr (h, f) \<Rightarrow>
               (let current_pos = length content - length f;
                    es = assign_offsets current_pos (pbo_entries h)
                in (True, \<lparr>header = Some (h\<lparr>pbo_entries := es\<rparr>),
                           entries = filter (\<lambda>e. \<not> is_boundary e) es\<rparr>))))"

subsection \<open>Well-formed archives\<close>

text \<open>
  The repository reads archives and never writes one. The byte layout its decoder expects
  is written out here, record by record: a name, its terminator and five little-endian
  32-bit integers; a header is a boundary record, the extension strings with their empty
  terminator, the named records and a closing boundary. The decoder is run on these bytes
  in the theorems below.
\<close>

definition pack_ulong :: "nat \<Rightarrow> bytes" where
  "pack_ulong n =
     [char_of n, char_of (n div 256), char_of (n div 65536), char_of (n div 16777216)]"

record raw_record =
  rname :: bytes
  rpm :: nat
  ros :: nat
  rrs :: nat
  rts :: nat
  rds :: nat

definition encode_record :: "raw_record \<Rightarrow> bytes" where
  "encode_record r =
     rname r @ [CHR 0x00] @ pack_ulong (rpm r) @ pack_ulong (ros r) @ pack_ulong (rrs r)
       @ pack_ulong (rts r) @ pack_ulong (rds r)"

definition asciiz :: "bytes \<Rightarrow> bytes" where
  "asciiz s = s @ [CHR 0x00]"

definition encode_header ::
  "raw_record \<Rightarrow> bytes list \<Rightarrow> raw_record list \<Rightarrow> raw_record \<Rightarrow> bytes" where
  "encode_header b0 strs recs b1 =
     encode_record (b0\<lparr>rname := []\<rparr>) @ concat (map asciiz strs) @ [CHR 0x00]
       @ concat (map encode_record recs) @ encode_record (b1\<lparr>rname := []\<rparr>)"

definition wf_name :: "bytes \<Rightarrow> bool" where
  "wf_name n = (n \<noteq> [] \<and> CHR 0x00 \<notin> set n)"

definition wf_fields :: "raw_record \<Rightarrow> bool" where
  "wf_fields r =
     (rpm r < 2 ^ 32 \<and> ros r < 2 ^ 32 \<and> rrs r < 2 ^ 32 \<and> rts r < 2 ^ 32 \<and> rds r < 2 ^ 32)"

definition entry_of :: "raw_record \<Rightarrow> nat \<Rightarrow> pbo_header_entry" where
  "entry_of r off =
     \<lparr>filename = decode_name (rname r), packing_method = rpm r, original_size = ros r,
      reserved = rrs r, timestamp = rts r, data_size = rds r, data_offset = off\<rparr>"

lemma takeWhile_terminated:
  "CHR 0x00 \<notin> set n \<Longrightarrow> takeWhile (\<lambda>c. c \<noteq> CHR 0x00) (n @ CHR 0x00 # rest) = n"
  by (induction n) auto

lemma read_asciiz_terminated:
  "CHR 0x00 \<notin> set n \<Longrightarrow> read_asciiz (n @ CHR 0x00 # rest) = (decode_name n, rest)"
  by (simp add: read_asciiz_def Let_def takeWhile_terminated)

lemma unpack_pack_ulong:
  assumes "n < 2 ^ 32"
  shows "unpack_ulong (pack_ulong n) = n"
proof -
  define q1 where "q1 = n div 256"
  define q2 where "q2 = q1 div 256"
  define q3 where "q3 = q2 div 256"
  have d2: "n div 65536 = q2"
    by (simp add: q1_def q2_def div_mult2_eq)
  have d3: "n div 16777216 = q3"
    by (simp add: q1_def q2_def q3_def div_mult2_eq)
  have "q3 < 256"
    using assms unfolding d3 [symmetric] by simp
  then have m3: "q3 mod 256 = q3" by simp
  have e0: "n = 256 * q1 + n mod 256" by (simp add: q1_def)
  have e1: "q1 = 256 * q2 + q1 mod 256" by (simp add: q2_def)
  have e2: "q2 = 256 * q3 + q2 mod 256" by (simp add: q3_def)
  have "unpack_ulong (pack_ulong n)
      = n mod 256 + 256 * (q1 mod 256) + 65536 * (q2 mod 256) + 16777216 * (q3 mod 256)"
    by (simp add: unpack_ulong_def pack_ulong_def d2 d3 q1_def [symmetric])
  also have "\<dots> = n"
    using e0 e1 e2 m3 by linarith
  finally show ?thesis .
qed

lemma read_ulong_pack:
  "n < 2 ^ 32 \<Longrightarrow> read_ulong (pack_ulong n @ rest) = Inr (n, rest)"
proof -
  assume a: "n < 2 ^ 32"
  have l: "length (pack_ulong n) = 4" by (simp add: pack_ulong_def)
  have "take 4 (pack_ulong n @ rest) = pack_ulong n" using l by simp
  moreover have "drop 4 (pack_ulong n @ rest) = rest" using l by simp
  ultimately show ?thesis
    using l by (simp add: read_ulong_def Let_def unpack_pack_ulong [OF a])
qed

lemma parse_entry_encoded:
  assumes "CHR 0x00 \<notin> set (rname r)" and "wf_fields r"
  shows "parse_entry (encode_record r @ rest) = Inr (entry_of r 0, rest)"
  using assms
  by (simp add: parse_entry_def encode_record_def read_asciiz_terminated read_ulong_pack
      wf_fields_def entry_of_def)

lemma decode_name_empty: "decode_name n = Text [] \<longleftrightarrow> n = []"
  by (auto simp: decode_name_def)


lemma ext_loop_encoded:
  assumes "\<forall>n \<in> set strs. wf_name n" and "s \<noteq> Text []"
  shows "ext_loop acc s (concat (map asciiz strs) @ CHR 0x00 # rest)
           = (acc @ s # map decode_name strs, rest)"
  using assms
proof (induction strs arbitrary: acc s)
  case Nil
  have r: "read_asciiz (CHR 0x00 # rest) = (Text [], rest)"
    using read_asciiz_terminated [of "[]" rest] by (simp add: decode_name_empty)
  show ?case
    using Nil.prems r by (simp add: ext_loop_step)
next
  case (Cons n strs)
  then have n: "CHR 0x00 \<notin> set n" "decode_name n \<noteq> Text []"
    by (simp_all add: wf_name_def decode_name_empty)
  have r: "read_asciiz (concat (map asciiz (n # strs)) @ CHR 0x00 # rest)
             = (decode_name n, concat (map asciiz strs) @ CHR 0x00 # rest)"
    using read_asciiz_terminated [OF n(1)] by (simp add: asciiz_def)
  have "ext_loop (acc @ [s]) (decode_name n) (concat (map asciiz strs) @ CHR 0x00 # rest)
          = ((acc @ [s]) @ decode_name n # map decode_name strs, rest)"
    using Cons.prems n(2) by (intro Cons.IH) simp_all
  then show ?case
    using Cons.prems(2) r by (subst ext_loop.simps) simp
qed

lemma parse_extension_encoded:
  assumes "\<forall>n \<in> set strs. wf_name n"
  shows "parse_extension (concat (map asciiz strs) @ CHR 0x00 # rest) e
           = (\<lparr>ext_entry = e, strings = map decode_name strs\<rparr>, rest)"
proof (cases strs)
  case Nil
  have "read_asciiz (CHR 0x00 # rest) = (Text [], rest)"
    using read_asciiz_terminated [of "[]" rest] by (simp add: decode_name_empty)
  then show ?thesis
    using Nil by (simp add: parse_extension_def)
next
  case (Cons n ns)
  with assms have n: "CHR 0x00 \<notin> set n" "decode_name n \<noteq> Text []"
    and ns: "\<forall>n \<in> set ns. wf_name n"
    by (simp_all add: wf_name_def decode_name_empty)
  have r: "read_asciiz (concat (map asciiz strs) @ CHR 0x00 # rest)
             = (decode_name n, concat (map asciiz ns) @ CHR 0x00 # rest)"
    using read_asciiz_terminated [OF n(1)] Cons by (simp add: asciiz_def)
  show ?thesis
    using r ext_loop_encoded [OF ns n(2), of "[]" rest] Cons
    by (simp add: parse_extension_def)
qed

definition wf_record :: "raw_record \<Rightarrow> bool" where
  "wf_record r = (wf_name (rname r) \<and> wf_fields r)"

lemma entry_of_boundary: "is_boundary (entry_of r off) \<longleftrightarrow> rname r = []"
  by (simp add: is_boundary_def entry_of_def decode_name_empty)

lemma header_loop_records:
  assumes "\<forall>r \<in> set recs. wf_record r"
  shows "header_loop acc ext fst_entry (concat (map encode_record recs) @ rest)
           = header_loop (acc @ map (\<lambda>r. entry_of r 0) recs) ext
               (fst_entry \<and> recs = []) rest"
  using assms
proof (induction recs arbitrary: acc fst_entry)
  case Nil
  show ?case by simp
next
  case (Cons r recs)
  then have wf: "CHR 0x00 \<notin> set (rname r)" "wf_fields r" "rname r \<noteq> []"
    by (simp_all add: wf_record_def wf_name_def)
  have p: "parse_entry (concat (map encode_record (r # recs)) @ rest)
             = Inr (entry_of r 0, concat (map encode_record recs) @ rest)"
    using parse_entry_encoded [OF wf(1,2)] by simp
  have "header_loop acc ext fst_entry (concat (map encode_record (r # recs)) @ rest)
          = header_loop (acc @ [entry_of r 0]) ext False
              (concat (map encode_record recs) @ rest)"
    using p wf(3) by (subst header_loop.simps) (simp add: entry_of_boundary)
  also have "\<dots> = header_loop ((acc @ [entry_of r 0]) @ map (\<lambda>r. entry_of r 0) recs) ext
                     (False \<and> recs = []) rest"
    using Cons.prems by (intro Cons.IH) simp
  finally show ?case by simp
qed

lemma header_loop_end:
  assumes "wf_fields b"
  shows "header_loop acc ext False (encode_record (b\<lparr>rname := []\<rparr>) @ rest)
           = Inr (\<lparr>header_extension = ext, pbo_entries = acc,
                   eoh_boundary = Some (entry_of (b\<lparr>rname := []\<rparr>) 0)\<rparr>, rest)"
proof -
  have "parse_entry (encode_record (b\<lparr>rname := []\<rparr>) @ rest)
          = Inr (entry_of (b\<lparr>rname := []\<rparr>) 0, rest)"
    using assms by (intro parse_entry_encoded) (simp_all add: wf_fields_def)
  then show ?thesis
    by (subst header_loop.simps) (simp add: entry_of_boundary)
qed

lemma parse_from_file_encoded:
  assumes "wf_fields b0" "wf_fields b1" "\<forall>n \<in> set strs. wf_name n"
    "\<forall>r \<in> set recs. wf_record r"
  shows "parse_from_file (encode_header b0 strs recs b1 @ payload)
           = Inr (\<lparr>header_extension =
                     Some \<lparr>ext_entry = entry_of (b0\<lparr>rname := []\<rparr>) 0,
                           strings = map decode_name strs\<rparr>,
                   pbo_entries = map (\<lambda>r. entry_of r 0) recs,
                   eoh_boundary = Some (entry_of (b1\<lparr>rname := []\<rparr>) 0)\<rparr>, payload)"
proof -
  let ?tail = "concat (map encode_record recs) @ encode_record (b1\<lparr>rname := []\<rparr>) @ payload"
  let ?e0 = "entry_of (b0\<lparr>rname := []\<rparr>) 0"
  have p0: "parse_entry (encode_header b0 strs recs b1 @ payload)
              = Inr (?e0, concat (map asciiz strs) @ CHR 0x00 # ?tail)"
    using assms(1) parse_entry_encoded [of "b0\<lparr>rname := []\<rparr>"]
    by (simp add: encode_header_def wf_fields_def)
  have px: "parse_extension (concat (map asciiz strs) @ CHR 0x00 # ?tail) ?e0
              = (\<lparr>ext_entry = ?e0, strings = map decode_name strs\<rparr>, ?tail)"
    by (rule parse_extension_encoded [OF assms(3)])
  have "parse_from_file (encode_header b0 strs recs b1 @ payload)
          = header_loop [] (Some \<lparr>ext_entry = ?e0, strings = map decode_name strs\<rparr>) False ?tail"
    unfolding parse_from_file_def
    using p0 px by (subst header_loop.simps) (simp add: entry_of_boundary)
  also have "\<dots> = header_loop ([] @ map (\<lambda>r. entry_of r 0) recs)
                     (Some \<lparr>ext_entry = ?e0, strings = map decode_name strs\<rparr>)
                     (False \<and> recs = []) (encode_record (b1\<lparr>rname := []\<rparr>) @ payload)"
    by (rule header_loop_records [OF assms(4)])
  finally show ?thesis
    using header_loop_end [OF assms(2)] by simp
qed


lemma assign_offsets_length: "length (assign_offsets c es) = length es"
  by (induction es arbitrary: c) auto

lemma assign_offsets_nth:
  assumes "\<forall>e \<in> set es. \<not> is_boundary e" and "i < length es"
  shows "assign_offsets c es ! i
           = (es ! i)\<lparr>data_offset := c + sum_list (map data_size (take i es))\<rparr>"
  using assms
proof (induction es arbitrary: c i)
  case Nil
  then show ?case by simp
next
  case (Cons e es)
  show ?case
  proof (cases i)
    case 0
    with Cons.prems show ?thesis by simp
  next
    case (Suc j)
    with Cons.prems have "assign_offsets (c + data_size e) es ! j
        = (es ! j)\<lparr>data_offset := c + data_size e + sum_list (map data_size (take j es))\<rparr>"
      by (intro Cons.IH) simp_all
    with Cons.prems Suc show ?thesis by (simp add: add.assoc)
  qed
qed

lemma assign_offsets_boundary:
  "filter (\<lambda>e. \<not> is_boundary e) (assign_offsets c es)
     = assign_offsets c (filter (\<lambda>e. \<not> is_boundary e) es)"
  by (induction es arbitrary: c) (auto simp: is_boundary_def)

lemma parse_pbo_encoded:
  assumes "wf_fields b0" "wf_fields b1" "\<forall>n \<in> set strs. wf_name n"
    "\<forall>r \<in> set recs. wf_record r"
  shows "fst (parse_pbo self (Some (encode_header b0 strs recs b1 @ payload)))"
    and "entries (snd (parse_pbo self (Some (encode_header b0 strs recs b1 @ payload))))
           = assign_offsets (length (encode_header b0 strs recs b1))
               (map (\<lambda>r. entry_of r 0) recs)"
proof -
  have nb: "\<forall>e \<in> set (map (\<lambda>r. entry_of r 0) recs). \<not> is_boundary e"
    using assms(4) by (auto simp: entry_of_boundary wf_record_def wf_name_def)
  then have f: "filter (\<lambda>e. \<not> is_boundary e) (map (\<lambda>r. entry_of r 0) recs)
                  = map (\<lambda>r. entry_of r 0) recs"
    by (simp only: filter_id_conv)
  note p = parse_from_file_encoded [OF assms, of payload]
  show "fst (parse_pbo self (Some (encode_header b0 strs recs b1 @ payload)))"
    by (simp add: parse_pbo_def p Let_def)
  show "entries (snd (parse_pbo self (Some (encode_header b0 strs recs b1 @ payload))))
           = assign_offsets (length (encode_header b0 strs recs b1))
               (map (\<lambda>r. entry_of r 0) recs)"
    by (simp add: parse_pbo_def p Let_def assign_offsets_boundary f)
qed

text \<open>
  Claim C1. A well-formed archive is a first boundary record, the extension strings and
  their empty terminator, \<open>N\<close> records with non-empty names, a closing boundary and
  the payload. \<open>parse_pbo\<close> succeeds on it; the entry table holds exactly the
  \<open>N\<close> records in file order and no boundary; the first offset is the length of the
  header (the position \<open>f.tell()\<close> reports after it) and every later offset is the
  previous offset plus the previous size.
\<close>

theorem decode_wellformed_archive:
  assumes "wf_fields b0" and "wf_fields b1" and "\<forall>n \<in> set strs. wf_name n"
    and "\<forall>r \<in> set recs. wf_record r"
  shows "\<exists>p. parse_pbo self (Some (encode_header b0 strs recs b1 @ payload)) = (True, p)
           \<and> length (entries p) = length recs
           \<and> (\<forall>e \<in> set (entries p). \<not> is_boundary e)
           \<and> (\<forall>i < length recs.
                 entries p ! i = entry_of (recs ! i) (data_offset (entries p ! i)))
           \<and> (recs \<noteq> [] \<longrightarrow>
                 data_offset (entries p ! 0) = length (encode_header b0 strs recs b1))
           \<and> (\<forall>i. 0 < i \<and> i < length recs \<longrightarrow>
                 data_offset (entries p ! i)
                   = data_offset (entries p ! (i - 1)) + data_size (entries p ! (i - 1)))"
proof -
  let ?content = "encode_header b0 strs recs b1 @ payload"
  let ?origin = "length (encode_header b0 strs recs b1)"
  let ?es = "map (\<lambda>r. entry_of r 0) recs"
  define p where "p = snd (parse_pbo self (Some ?content))"
  have ok: "parse_pbo self (Some ?content) = (True, p)"
    using parse_pbo_encoded(1) [OF assms, of self payload]
    by (simp add: p_def prod_eq_iff)
  have ents: "entries p = assign_offsets ?origin ?es"
    unfolding p_def by (rule parse_pbo_encoded(2) [OF assms])
  have nb: "\<forall>e \<in> set ?es. \<not> is_boundary e"
    using assms(4) by (auto simp: entry_of_boundary wf_record_def wf_name_def)
  have nth: "entries p ! i
               = entry_of (recs ! i) (?origin + sum_list (map rds (take i recs)))"
    if "i < length recs" for i
  proof -
    have "map data_size (take i ?es) = map rds (take i recs)"
      by (simp add: take_map entry_of_def)
    then show ?thesis
      using assign_offsets_nth [OF nb, of i ?origin] that
      by (simp add: ents entry_of_def)
  qed
  have len: "length (entries p) = length recs"
    by (simp add: ents assign_offsets_length)
  have c3: "\<forall>e \<in> set (entries p). \<not> is_boundary e"
  proof
    fix e assume "e \<in> set (entries p)"
    then obtain i where i: "i < length recs" "e = entries p ! i"
      using len by (auto simp: in_set_conv_nth)
    then have "rname (recs ! i) \<noteq> []"
      using assms(4) by (auto simp: wf_record_def wf_name_def)
    then show "\<not> is_boundary e"
      using i nth [OF i(1)] by (simp add: entry_of_boundary)
  qed
  have c4: "\<forall>i < length recs. entries p ! i = entry_of (recs ! i) (data_offset (entries p ! i))"
    using nth by (simp add: entry_of_def)
  have c5: "recs \<noteq> [] \<longrightarrow> data_offset (entries p ! 0) = ?origin"
    using nth [of 0] by (auto simp: entry_of_def)
  have c6: "\<forall>i. 0 < i \<and> i < length recs \<longrightarrow>
              data_offset (entries p ! i)
                = data_offset (entries p ! (i - 1)) + data_size (entries p ! (i - 1))"
  proof (intro allI impI)
    fix i assume i: "0 < i \<and> i < length recs"
    then obtain j where j: "i = Suc j" by (cases i) auto
    have "take (Suc j) recs = take j recs @ [recs ! j]"
      using i j by (simp add: take_Suc_conv_app_nth)
    then show "data_offset (entries p ! i)
                = data_offset (entries p ! (i - 1)) + data_size (entries p ! (i - 1))"
      using i j nth [of i] nth [of j] by (simp add: entry_of_def)
  qed
  show ?thesis
    using ok len c3 c4 c5 c6 by blast
qed


definition no_fields :: raw_record where
  "no_fields = \<lparr>rname = [], rpm = 0, ros = 0, rrs = 0, rts = 0, rds = 0\<rparr>"

definition example_records :: "raw_record list" where
  "example_records =
     [\<lparr>rname = ''a.txt'', rpm = 0, ros = 2, rrs = 0, rts = 0, rds = 2\<rparr>,
      \<lparr>rname = ''b'' @ [CHR 0x5C] @ ''c.xml'', rpm = 0, ros = 8, rrs = 0, rts = 0, rds = 8\<rparr>]"

theorem decode_wellformed_archive_witness:
  "wf_fields no_fields \<and> wf_name ''prefix'' \<and> wf_name ''mod''
   \<and> list_all wf_record example_records
   \<and> (\<exists>p. parse_pbo new_parser
          (Some (encode_header no_fields [''prefix'', ''mod''] example_records no_fields
             @ ''hi<types/>'')) = (True, p)
        \<and> length (entries p) = length example_records
        \<and> (\<forall>e \<in> set (entries p). \<not> is_boundary e)
        \<and> (\<forall>i < length example_records.
              entries p ! i = entry_of (example_records ! i) (data_offset (entries p ! i)))
        \<and> (example_records \<noteq> [] \<longrightarrow>
              data_offset (entries p ! 0)
                = length (encode_header no_fields [''prefix'', ''mod''] example_records no_fields))
        \<and> (\<forall>i. 0 < i \<and> i < length example_records \<longrightarrow>
              data_offset (entries p ! i)
                = data_offset (entries p ! (i - 1)) + data_size (entries p ! (i - 1))))"
proof -
  have h1: "wf_fields no_fields"
    by (simp add: wf_fields_def no_fields_def)
  have h2: "\<forall>n \<in> set [''prefix'', ''mod'']. wf_name n"
    by (simp add: wf_name_def)
  have h3: "\<forall>r \<in> set example_records. wf_record r"
    by (simp add: example_records_def wf_record_def wf_name_def wf_fields_def)
  have "list_all wf_record example_records"
    using h3 by (simp add: list_all_iff)
  moreover have "wf_name ''prefix'' \<and> wf_name ''mod''"
    using h2 by simp
  ultimately show ?thesis
    using h1 decode_wellformed_archive [OF h1 h1 h2 h3, of new_parser "''hi<types/>''"]
    by blast
qed

lemma read_asciiz_append:
  assumes "read_asciiz x = (s, x')" and "x' \<noteq> []"
  shows "read_asciiz (x @ y) = (s, x' @ y)"
proof -
  let ?P = "\<lambda>c. c \<noteq> CHR 0x00"
  let ?n = "length (takeWhile ?P x)"
  have x': "x' = drop (Suc ?n) x" and s: "s = decode_name (takeWhile ?P x)"
    using assms(1) by (simp_all add: read_asciiz_def Let_def)
  have lt: "?n < length x"
    using assms(2) x' by (cases "?n < length x") simp_all
  then have "\<not> ?P (x ! ?n)" by (rule nth_length_takeWhile)
  moreover have "x ! ?n \<in> set x" using lt by simp
  ultimately have "takeWhile ?P (x @ y) = takeWhile ?P x"
    by (intro takeWhile_append1) auto
  then show ?thesis
    using lt by (simp add: read_asciiz_def Let_def x' s)
qed

lemma read_ulong_append:
  "read_ulong x = Inr (v, x') \<Longrightarrow> read_ulong (x @ y) = Inr (v, x' @ y)"
  by (auto simp: read_ulong_def Let_def split: if_splits)

lemma read_ulong_nonempty: "read_ulong x = Inr (v, x') \<Longrightarrow> x \<noteq> []"
  by (auto simp: read_ulong_def Let_def split: if_splits)

lemma parse_entry_append:
  assumes "parse_entry x = Inr (e, x')"
  shows "parse_entry (x @ y) = Inr (e, x' @ y)"
proof -
  obtain name f0 where a: "read_asciiz x = (name, f0)"
    by (cases "read_asciiz x")
  from assms a obtain pm f1 os f2 rs f3 ts f4 ds where
    r: "read_ulong f0 = Inr (pm, f1)" "read_ulong f1 = Inr (os, f2)"
       "read_ulong f2 = Inr (rs, f3)" "read_ulong f3 = Inr (ts, f4)"
       "read_ulong f4 = Inr (ds, x')"
    and e: "e = \<lparr>filename = name, packing_method = pm, original_size = os,
              reserved = rs, timestamp = ts, data_size = ds, data_offset = 0\<rparr>"
    by (auto simp: parse_entry_def split: sum.splits prod.splits)
  have "read_asciiz (x @ y) = (name, f0 @ y)"
    using a read_ulong_nonempty [OF r(1)] by (rule read_asciiz_append)
  then show ?thesis
    using r [THEN read_ulong_append, of y] e by (simp add: parse_entry_def)
qed

lemma ext_loop_append:
  assumes "ext_loop strs s x = (r, x')" and "x' \<noteq> []"
  shows "ext_loop strs s (x @ y) = (r, x' @ y)"
  using assms
proof (induction strs s x rule: ext_loop.induct)
  case (1 strs s f)
  show ?case
  proof (cases "s = Text []")
    case True
    with "1.prems" show ?thesis by simp
  next
    case False
    obtain s1 f1 where a: "read_asciiz f = (s1, f1)"
      by (cases "read_asciiz f")
    have rec: "ext_loop (strs @ [s]) s1 f1 = (r, x')"
      using "1.prems"(1) False a by (simp add: ext_loop_step)
    have "length x' \<le> length f1"
      using rec by (rule ext_loop_length)
    then have "f1 \<noteq> []"
      using "1.prems"(2) by auto
    then have b: "read_asciiz (f @ y) = (s1, f1 @ y)"
      using a by (intro read_asciiz_append)
    have "ext_loop (strs @ [s]) s1 (f1 @ y) = (r, x' @ y)"
      using rec "1.prems"(2) by (rule "1.IH" [OF False a [symmetric]])
    then show ?thesis
      using False b by (simp add: ext_loop_step)
  qed
qed

lemma parse_extension_append:
  assumes "parse_extension x e = (ext, x')" and "x' \<noteq> []"
  shows "parse_extension (x @ y) e = (ext, x' @ y)"
proof -
  obtain s f0 where a: "read_asciiz x = (s, f0)"
    by (cases "read_asciiz x")
  obtain strs f1 where c: "ext_loop [] s f0 = (strs, f1)"
    by (cases "ext_loop [] s f0")
  have r: "f1 = x'" "ext = \<lparr>ext_entry = e, strings = strs\<rparr>"
    using assms(1) a c by (simp_all add: parse_extension_def)
  have "length x' \<le> length f0"
    using c r(1) ext_loop_length by blast
  then have "f0 \<noteq> []" using assms(2) by auto
  then have "read_asciiz (x @ y) = (s, f0 @ y)"
    using a by (intro read_asciiz_append)
  moreover have "ext_loop [] s (f0 @ y) = (strs, x' @ y)"
    using c assms(2) unfolding r(1) by (rule ext_loop_append)
  ultimately show ?thesis
    by (simp add: parse_extension_def r(2))
qed

lemma parse_entry_empty: "parse_entry [] = Inl StructError"
  by (simp add: parse_entry_def read_asciiz_def read_ulong_def)

lemma header_loop_nonempty: "header_loop es ext b x = Inr r \<Longrightarrow> x \<noteq> []"
  by (auto simp: header_loop.simps [of es ext b "[]"] parse_entry_empty)

lemma header_loop_append:
  assumes "header_loop es ext b x = Inr (h, x')"
  shows "header_loop es ext b (x @ y) = Inr (h, x' @ y)"
  using assms
proof (induction es ext b x rule: header_loop.induct)
  case (1 es ext b f)
  from "1.prems" obtain entry f1 where p: "parse_entry f = Inr (entry, f1)"
    by (subst (asm) header_loop.simps) (auto split: sum.splits)
  note q = parse_entry_append [OF p, of y]
  show ?case
  proof (cases "is_boundary entry")
    case False
    have "header_loop (es @ [entry]) ext False f1 = Inr (h, x')"
      using "1.prems" p False by (subst (asm) header_loop.simps) simp
    then have "header_loop (es @ [entry]) ext False (f1 @ y) = Inr (h, x' @ y)"
      using p False by (intro "1.IH"(1)) simp_all
    then show ?thesis
      using q False by (subst header_loop.simps) simp
  next
    case True
    show ?thesis
    proof (cases b)
      case False
      then show ?thesis
        using "1.prems" p q True
        by (subst header_loop.simps, subst (asm) header_loop.simps) auto
    next
      case fst: True
      obtain x2 f2 where e: "parse_extension f1 entry = (x2, f2)"
        by (cases "parse_extension f1 entry")
      have rec: "header_loop es (Some x2) False f2 = Inr (h, x')"
        using "1.prems" p True fst e by (subst (asm) header_loop.simps) simp
      have "f2 \<noteq> []"
        using rec by (rule header_loop_nonempty)
      then have e': "parse_extension (f1 @ y) entry = (x2, f2 @ y)"
        using e by (intro parse_extension_append)
      have "header_loop es (Some x2) False (f2 @ y) = Inr (h, x' @ y)"
        using True rec by (intro "1.IH"(2) [OF p refl _ fst e [symmetric]]) simp_all
      then show ?thesis
        using q True fst e' by (subst header_loop.simps) simp
    qed
  qed
qed

lemma header_loop_suffix:
  "header_loop es ext b x = Inr (h, x') \<Longrightarrow> length x' \<le> length x"
proof (induction es ext b x rule: header_loop.induct)
  case (1 es ext b f)
  from "1.prems" obtain entry f1 where p: "parse_entry f = Inr (entry, f1)"
    by (subst (asm) header_loop.simps) (auto split: sum.splits)
  have l1: "length f1 \<le> length f"
    using parse_entry_length [OF p] by simp
  show ?case
  proof (cases "is_boundary entry")
    case False
    have "header_loop (es @ [entry]) ext False f1 = Inr (h, x')"
      using "1.prems" p False by (subst (asm) header_loop.simps) simp
    then have "length x' \<le> length f1"
      using p False by (intro "1.IH"(1)) simp_all
    with l1 show ?thesis by simp
  next
    case True
    show ?thesis
    proof (cases b)
      case False
      then have "x' = f1"
        using "1.prems" p True by (subst (asm) header_loop.simps) simp
      with l1 show ?thesis by simp
    next
      case fst: True
      obtain x2 f2 where e: "parse_extension f1 entry = (x2, f2)"
        by (cases "parse_extension f1 entry")
      have rec: "header_loop es (Some x2) False f2 = Inr (h, x')"
        using "1.prems" p True fst e by (subst (asm) header_loop.simps) simp
      have "length x' \<le> length f2"
        using True rec by (intro "1.IH"(2) [OF p refl _ fst e [symmetric]]) simp_all
      with l1 parse_extension_length [OF e] show ?thesis by simp
    qed
  qed
qed

text \<open>
  Claim C4. Take any stream whose header decodes, and cut it anywhere before the end of
  that header: inside a name, between a name and its five integers, inside an integer, or
  between two records. \<open>parse_pbo\<close> on the truncated stream returns \<open>False\<close> and the
  parser object (its header and its entry table) is what it was before the call.
\<close>

theorem truncated_header_fails:
  assumes "parse_from_file content = Inr (h, f)" and "n < length content - length f"
  shows "parse_pbo self (Some (take n content)) = (False, self)"
proof -
  have "parse_from_file (take n content) \<noteq> Inr r" for r
  proof
    assume a: "parse_from_file (take n content) = Inr r"
    obtain h' f' where r: "r = (h', f')" by (cases r)
    have "parse_from_file (take n content @ drop n content) = Inr (h', f' @ drop n content)"
      using a r unfolding parse_from_file_def by (intro header_loop_append) simp
    then have "f = f' @ drop n content"
      using assms(1) by simp
    then have "length content - n \<le> length f" by simp
    with assms(2) show False by simp
  qed
  then obtain e where "parse_from_file (take n content) = Inl e"
    by (cases "parse_from_file (take n content)") auto
  then show ?thesis by (simp add: parse_pbo_def)
qed


definition example_archive :: bytes where
  "example_archive =
     encode_header no_fields [''prefix'', ''mod''] example_records no_fields @ ''hi<types/>''"

definition truncated_after_name :: bytes where
  "truncated_after_name =
     encode_record no_fields @ asciiz ''prefix'' @ asciiz ''mod'' @ [CHR 0x00] @ asciiz ''a.txt''"

lemma example_archive_split:
  "\<exists>rest. example_archive = truncated_after_name @ rest"
  by (simp add: example_archive_def truncated_after_name_def encode_header_def
      example_records_def encode_record_def asciiz_def no_fields_def)

lemma length_truncated_after_name: "length truncated_after_name = 39"
  by (simp add: truncated_after_name_def encode_record_def asciiz_def no_fields_def
      pack_ulong_def)

theorem truncated_header_fails_witness:
  "(\<exists>h. parse_from_file example_archive = Inr (h, ''hi<types/>''))
   \<and> 39 < length example_archive - length ''hi<types/>''
   \<and> take 39 example_archive = truncated_after_name
   \<and> parse_pbo new_parser (Some truncated_after_name) = (False, new_parser)"
proof -
  have h1: "wf_fields no_fields"
    by (simp add: wf_fields_def no_fields_def)
  have h2: "\<forall>n \<in> set [''prefix'', ''mod'']. wf_name n"
    by (simp add: wf_name_def)
  have h3: "\<forall>r \<in> set example_records. wf_record r"
    by (simp add: example_records_def wf_record_def wf_name_def wf_fields_def)
  note p = parse_from_file_encoded [OF h1 h1 h2 h3, of "''hi<types/>''",
      folded example_archive_def]
  have l: "39 < length example_archive - length ''hi<types/>''"
    by (simp add: example_archive_def encode_header_def encode_record_def asciiz_def
        pack_ulong_def example_records_def no_fields_def)
  have t: "take 39 example_archive = truncated_after_name"
  proof -
    obtain rest where "example_archive = truncated_after_name @ rest"
      using example_archive_split by blast
    then have "take (length truncated_after_name) example_archive = truncated_after_name"
      by (metis append_eq_conv_conj)
    then show ?thesis
      by (simp only: length_truncated_after_name)
  qed
  show ?thesis
    using p l t truncated_header_fails [OF p l, of new_parser] by simp
qed

subsection \<open>pbo\_parser.py: extraction\<close>









text \<open>
  Where a relative path leads: its components are walked from the destination root,
  \<open>..\<close> going one level up. The path leaves the root when it is absolute or when
  some \<open>..\<close> is met at depth 0 (symbolic links aside).
\<close>

fun split_sep :: "string \<Rightarrow> string list" where
  "split_sep [] = [[]]"
| "split_sep (c # cs) =
     (if c = CHR ''/'' then [] # split_sep cs
      else (case split_sep cs of [] \<Rightarrow> [[c]] | p # ps \<Rightarrow> (c # p) # ps))"





























section \<open>p3d\_parser.py: model files\<close>

text \<open>
  The argument \<open>file\<close> of the functions below is the content of the file at the given
  path, or \<open>None\<close> when \<open>open\<close> raises. The file is not modified between the calls
  of one classification.
\<close>

record p3d_header_info =
  format :: string
  version :: nat
  file_size :: nat

text \<open>
  A vertex coordinate is an IEEE-754 single, kept as its 32-bit pattern (the value
  \<open>struct.unpack('<I', \<dots>)\<close> would give for the same four bytes); \<open>struct.unpack('<f',
  \<dots>)\<close> turns it into a Python float without rounding.
\<close>

type_synonym vertex = "nat \<times> nat \<times> nat"
type_synonym face = "nat \<times> nat \<times> nat"

record p3d_model =
  path :: string
  format_type :: string
  vertices :: "vertex list"
  faces :: "face list"
  is_valid :: bool
  geometry_loaded :: bool

definition new_model :: "string \<Rightarrow> p3d_model" where
  "new_model p =
     \<lparr>path = p, format_type = [], vertices = [], faces = [], is_valid = False,
      geometry_loaded = False\<rparr>"

definition is_valid_p3d :: "bytes option \<Rightarrow> bool" where
  "is_valid_p3d file =
     (case file of
        None \<Rightarrow> False
      | Some content \<Rightarrow> (let header = take 4 content in header \<in> set [''MLOD'', ''ODOL'']))"

text \<open>
  \<open>parse_p3d_header\<close>: \<open>struct.unpack('<I', f.read(4))\<close> raises \<open>struct.error\<close>
  when fewer than four bytes follow the magic; the \<open>except\<close> branch returns \<open>None\<close>.
\<close>

definition parse_p3d_header :: "bytes option \<Rightarrow> p3d_header_info option" where
  "parse_p3d_header file =
     (case file of
        None \<Rightarrow> None
      | Some content \<Rightarrow>
          (let header = take 4 content
           in if header \<notin> set [''MLOD'', ''ODOL''] then None
              else (case read_ulong (drop 4 content) of
                      Inl e \<Rightarrow> None
                    | Inr (v, f) \<Rightarrow>
                        Some \<lparr>format = header, version = v, file_size = length content\<rparr>)))"

text \<open>
  \<open>abs(x) < 1000\<close> for the float with bit pattern \<open>w\<close>: sign bit, eight exponent
  bits \<open>e\<close>, 23 fraction bits \<open>m\<close>. Exponent 255 is an infinity or a NaN, for which
  the comparison is false; exponent 0 is zero or a subnormal; otherwise the magnitude is
  \<open>(2^23 + m) * 2^(e - 150)\<close>.
\<close>

definition abs_lt_1000 :: "nat \<Rightarrow> bool" where
  "abs_lt_1000 w =
     (let e = (w div 2 ^ 23) mod 256; m = w mod 2 ^ 23
      in if e = 255 then False
         else if e = 0 then True
         else if 150 \<le> e then False
         else 2 ^ 23 + m < 1000 * 2 ^ (150 - e))"

text \<open>
  Singles of one sign are ordered as their bit patterns are: the test is a comparison of
  the low 31 bits with the pattern \<open>0x447A0000\<close> of 1000.0.
\<close>

lemma abs_lt_1000_pattern:
  "abs_lt_1000 w \<longleftrightarrow> (w div 2 ^ 23) mod 256 * 2 ^ 23 + w mod 2 ^ 23 < 0x447A0000"
proof -
  define e where "e = (w div 2 ^ 23) mod 256"
  define m where "m = w mod 2 ^ 23"
  have m: "m < 8388608" by (simp add: m_def)
  have e: "e < 256" by (simp add: e_def)
  consider "e = 0" | "1 \<le> e \<and> e \<le> 135" | "e = 136" | "137 \<le> e \<and> e \<le> 149"
    | "150 \<le> e \<and> e < 255" | "e = 255"
    using e by linarith
  then have main: "(if e = 255 then False else if e = 0 then True else if 150 \<le> e then False
              else 2 ^ 23 + m < 1000 * 2 ^ (150 - e))
             \<longleftrightarrow> e * 2 ^ 23 + m < 0x447A0000"
  proof cases
    case 1
    then show ?thesis using m by simp
  next
    case 2
    then have "15 \<le> 150 - e" by arith
    then have "(2::nat) ^ 15 \<le> 2 ^ (150 - e)"
      by (intro power_increasing) simp_all
    then have "2 ^ 23 + m < 1000 * 2 ^ (150 - e)"
      using m by simp
    moreover have "e * 2 ^ 23 \<le> 135 * 2 ^ 23"
      using 2 by (intro mult_right_mono) simp_all
    then have "e * 2 ^ 23 + m < 0x447A0000"
      using m by simp
    ultimately show ?thesis using 2 by simp
  next
    case 3
    then show ?thesis by simp
  next
    case 4
    then have "150 - e \<le> 13" by arith
    then have "(2::nat) ^ (150 - e) \<le> 2 ^ 13"
      by (intro power_increasing) simp_all
    then have "\<not> 2 ^ 23 + m < 1000 * 2 ^ (150 - e)"
      by simp
    moreover have "137 * 2 ^ 23 \<le> e * 2 ^ 23"
      using 4 by (intro mult_right_mono) simp_all
    then have "\<not> e * 2 ^ 23 + m < 0x447A0000"
      by simp
    ultimately show ?thesis using 4 by simp
  next
    case 5
    then have "150 * 2 ^ 23 \<le> e * 2 ^ 23"
      by (intro mult_right_mono) simp_all
    then have "\<not> e * 2 ^ 23 + m < 0x447A0000"
      by simp
    then show ?thesis using 5 by simp
  next
    case 6
    then show ?thesis by simp
  qed
  have "abs_lt_1000 w
          = (if e = 255 then False else if e = 0 then True else if 150 \<le> e then False
             else 2 ^ 23 + m < 1000 * 2 ^ (150 - e))"
    by (simp only: abs_lt_1000_def Let_def e_def m_def)
  then show ?thesis
    using main by (simp only: e_def m_def)
qed

text \<open>\<open>struct.unpack('<H', f.read(2))\<close>.\<close>

definition read_ushort :: "bytes \<Rightarrow> py_error + (nat \<times> bytes)" where
  "read_ushort f =
     (let data = take 2 f
      in if length data \<noteq> 2 then Inl StructError
         else Inr (of_char (data ! 0) + 256 * of_char (data ! 1), drop 2 f))"

text \<open>
  The vertex loop, \<open>n\<close> iterations left. A \<open>struct.error\<close> leaves the loop through the
  \<open>except struct.error: pass\<close> around it; the \<open>else: break\<close> leaves it at the first
  tuple with a coordinate that is not below 1000 in magnitude.
\<close>

fun sample_vertices :: "nat \<Rightarrow> bytes \<Rightarrow> vertex list" where
  "sample_vertices 0 f = []"
| "sample_vertices (Suc n) f =
     (case read_ulong f of Inl e \<Rightarrow> [] | Inr (x, f1) \<Rightarrow>
      case read_ulong f1 of Inl e \<Rightarrow> [] | Inr (y, f2) \<Rightarrow>
      case read_ulong f2 of Inl e \<Rightarrow> [] | Inr (z, f3) \<Rightarrow>
        if abs_lt_1000 x \<and> abs_lt_1000 y \<and> abs_lt_1000 z
        then (x, y, z) # sample_vertices n f3
        else [])"

text \<open>The face loop for \<open>nv\<close> sampled vertices, \<open>n\<close> iterations left.\<close>

fun sample_faces :: "nat \<Rightarrow> nat \<Rightarrow> bytes \<Rightarrow> face list" where
  "sample_faces nv 0 f = []"
| "sample_faces nv (Suc n) f =
     (case read_ushort f of Inl e \<Rightarrow> [] | Inr (idx1, f1) \<Rightarrow>
      case read_ushort f1 of Inl e \<Rightarrow> [] | Inr (idx2, f2) \<Rightarrow>
      case read_ushort f2 of Inl e \<Rightarrow> [] | Inr (idx3, f3) \<Rightarrow>
        if idx1 < nv \<and> idx2 < nv \<and> idx3 < nv
        then (idx1, idx2, idx3) # sample_faces nv n f3
        else [])"

text \<open>
  \<open>parse_mlod_geometry\<close>. Reading \<open>lod_count\<close> is outside the inner \<open>try\<close> blocks:
  a file shorter than 12 bytes raises \<open>struct.error\<close> there and the outer \<open>except\<close>
  returns \<open>None\<close>. \<open>min(100, 1000)\<close> is 100.
\<close>

definition parse_mlod_geometry :: "string \<Rightarrow> bytes option \<Rightarrow> p3d_model option" where
  "parse_mlod_geometry file_path file =
     (case file of
        None \<Rightarrow> None
      | Some content \<Rightarrow>
          (case read_ulong (drop 8 content) of
             Inl e \<Rightarrow> None
           | Inr (lod_count, f) \<Rightarrow>
               (let vs = (if lod_count > 0 then sample_vertices (min 100 1000) (drop 100 content)
                          else []);
                    face_count = min (length vs div 3) 200;
                    fs = sample_faces (length vs) face_count (drop 300 content)
                in Some ((new_model file_path)
                     \<lparr>format_type := ''MLOD'', vertices := vs, faces := fs,
                      is_valid := (length vs > 0), geometry_loaded := (length vs > 0)\<rparr>))))"

text \<open>\<open>parse_odol_geometry\<close>; \<open>min(50, 500)\<close> is 50.\<close>

definition parse_odol_geometry :: "string \<Rightarrow> bytes option \<Rightarrow> p3d_model option" where
  "parse_odol_geometry file_path file =
     (case file of
        None \<Rightarrow> None
      | Some content \<Rightarrow>
          (let vs = sample_vertices (min 50 500) (drop 200 content);
               face_count = min (length vs div 3) 150;
               fs = sample_faces (length vs) face_count (drop 400 content)
           in Some ((new_model file_path)
                \<lparr>format_type := ''ODOL'', vertices := vs, faces := fs,
                 is_valid := (length vs > 0), geometry_loaded := (length vs > 0)\<rparr>)))"

text \<open>
  \<open>get_basic_model_info\<close>. Beside the result, the model records which geometry
  sampler the call invoked, in order (none when it returns before the dispatch).
\<close>

datatype sampler = MLOD_sampler | ODOL_sampler

definition get_basic_model_info ::
  "string \<Rightarrow> bytes option \<Rightarrow> p3d_model option \<times> sampler list" where
  "get_basic_model_info p3d_path file =
     (if \<not> is_valid_p3d file then (None, [])
      else (case parse_p3d_header file of
              None \<Rightarrow> (None, [])
            | Some header_info \<Rightarrow>
                if format header_info = ''MLOD'' then
                  (map_option (\<lambda>model. model\<lparr>format_type := format header_info\<rparr>)
                     (parse_mlod_geometry p3d_path file), [MLOD_sampler])
                else if format header_info = ''ODOL'' then
                  (map_option (\<lambda>model. model\<lparr>format_type := format header_info\<rparr>)
                     (parse_odol_geometry p3d_path file), [ODOL_sampler])
                else (None, [])))"

lemma read_ulong_short: "length f < 4 \<Longrightarrow> read_ulong f = Inl StructError"
  by (simp add: read_ulong_def)

text \<open>
  Claim C5. A file whose first four bytes are neither of the two magic values is
  classified as not a model: \<open>is_valid_p3d\<close> is \<open>False\<close>, \<open>get_basic_model_info\<close>
  returns \<open>None\<close>, a value and not an exception, and it has called no geometry sampler.
\<close>

theorem unrecognized_magic_not_a_model:
  assumes "take 4 content \<noteq> ''MLOD''" and "take 4 content \<noteq> ''ODOL''"
  shows "is_valid_p3d (Some content) = False
         \<and> get_basic_model_info p3d_path (Some content) = (None, [])"
  using assms by (simp add: is_valid_p3d_def get_basic_model_info_def)

theorem unrecognized_magic_not_a_model_witness:
  "take 4 ''PK34rest of a file'' \<noteq> ''MLOD'' \<and> take 4 ''PK34rest of a file'' \<noteq> ''ODOL''
   \<and> is_valid_p3d (Some ''PK34rest of a file'') = False
   \<and> get_basic_model_info ''a.p3d'' (Some ''PK34rest of a file'') = (None, [])"
proof -
  have a: "take 4 ''PK34rest of a file'' \<noteq> ''MLOD''"
    and b: "take 4 ''PK34rest of a file'' \<noteq> ''ODOL''"
    by simp_all
  show ?thesis
    using a b unrecognized_magic_not_a_model [OF a b, of "''a.p3d''"] by blast
qed

text \<open>
  Claim C10. A file that begins with a recognized magic and has fewer than eight bytes:
  the read of the version raises, \<open>parse_p3d_header\<close> returns \<open>None\<close>, and
  \<open>get_basic_model_info\<close> returns \<open>None\<close> without calling a sampler.
\<close>

theorem truncated_after_magic_not_a_model:
  assumes "take 4 content = ''MLOD'' \<or> take 4 content = ''ODOL''"
    and "length content < 8"
  shows "parse_p3d_header (Some content) = None
         \<and> get_basic_model_info p3d_path (Some content) = (None, [])"
proof -
  have r: "read_ulong (drop 4 content) = Inl StructError"
    using assms(2) by (intro read_ulong_short) simp
  have h: "parse_p3d_header (Some content) = None"
    using assms(1) r by (auto simp: parse_p3d_header_def)
  then show ?thesis
    by (simp add: get_basic_model_info_def)
qed

theorem truncated_after_magic_not_a_model_witness:
  "take 4 (''MLOD'' @ [CHR 0x01, CHR 0x01]) = ''MLOD''
   \<and> length (''MLOD'' @ [CHR 0x01, CHR 0x01]) < 8
   \<and> parse_p3d_header (Some (''MLOD'' @ [CHR 0x01, CHR 0x01])) = None
   \<and> get_basic_model_info ''a.p3d'' (Some (''MLOD'' @ [CHR 0x01, CHR 0x01])) = (None, [])"
proof -
  have a: "take 4 (''MLOD'' @ [CHR 0x01, CHR 0x01]) = ''MLOD''
             \<or> take 4 (''MLOD'' @ [CHR 0x01, CHR 0x01]) = ''ODOL''"
    and b: "length (''MLOD'' @ [CHR 0x01, CHR 0x01]) < 8"
    by simp_all
  show ?thesis
    using truncated_after_magic_not_a_model [OF a b, of "''a.p3d''"] by simp
qed

subsection \<open>The sampled streams\<close>

text \<open>
  The candidates a loop can read from a position: the complete groups of three
  little-endian 32-bit values, and of three little-endian 16-bit values, that the bytes
  from there on hold.
\<close>

function float_triples :: "bytes \<Rightarrow> vertex list" where
  "float_triples f =
     (if length f < 12 then []
      else (unpack_ulong (take 4 f), unpack_ulong (take 4 (drop 4 f)),
            unpack_ulong (take 4 (drop 8 f))) # float_triples (drop 12 f))"
  by pat_completeness auto
termination
  by (relation "measure length") auto

declare float_triples.simps [simp del]

definition unpack_ushort :: "bytes \<Rightarrow> nat" where
  "unpack_ushort data = of_char (data ! 0) + 256 * of_char (data ! 1)"

function ushort_triples :: "bytes \<Rightarrow> face list" where
  "ushort_triples f =
     (if length f < 6 then []
      else (unpack_ushort (take 2 f), unpack_ushort (take 2 (drop 2 f)),
            unpack_ushort (take 2 (drop 4 f))) # ushort_triples (drop 6 f))"
  by pat_completeness auto
termination
  by (relation "measure length") auto

declare ushort_triples.simps [simp del]

definition vertex_ok :: "vertex \<Rightarrow> bool" where
  "vertex_ok v = (case v of (x, y, z) \<Rightarrow> abs_lt_1000 x \<and> abs_lt_1000 y \<and> abs_lt_1000 z)"

definition face_ok :: "nat \<Rightarrow> face \<Rightarrow> bool" where
  "face_ok nv t = (case t of (idx1, idx2, idx3) \<Rightarrow> idx1 < nv \<and> idx2 < nv \<and> idx3 < nv)"

lemma read_ulong_eq:
  "read_ulong f
     = (if length f < 4 then Inl StructError else Inr (unpack_ulong (take 4 f), drop 4 f))"
  by (auto simp: read_ulong_def Let_def)

lemma read_ushort_eq:
  "read_ushort f
     = (if length f < 2 then Inl StructError else Inr (unpack_ushort (take 2 f), drop 2 f))"
  by (auto simp: read_ushort_def unpack_ushort_def Let_def)

lemma sample_vertices_eq:
  "sample_vertices n f = takeWhile vertex_ok (take n (float_triples f))"
proof (induction n arbitrary: f)
  case 0
  show ?case by simp
next
  case (Suc n)
  show ?case
  proof (cases "length f < 12")
    case True
    then have "float_triples f = []"
      by (simp add: float_triples.simps)
    moreover have "sample_vertices (Suc n) f = []"
      using True by (auto simp: read_ulong_eq)
    ultimately show ?thesis by simp
  next
    case False
    then have t: "float_triples f
        = (unpack_ulong (take 4 f), unpack_ulong (take 4 (drop 4 f)),
           unpack_ulong (take 4 (drop 8 f))) # float_triples (drop 12 f)"
      by (subst float_triples.simps) simp
    have r: "read_ulong f = Inr (unpack_ulong (take 4 f), drop 4 f)"
      "read_ulong (drop 4 f) = Inr (unpack_ulong (take 4 (drop 4 f)), drop 8 f)"
      "read_ulong (drop 8 f) = Inr (unpack_ulong (take 4 (drop 8 f)), drop 12 f)"
      using False by (simp_all add: read_ulong_eq)
    show ?thesis
      by (simp add: t r vertex_ok_def Suc.IH)
  qed
qed

lemma sample_faces_eq:
  "sample_faces nv n f = takeWhile (face_ok nv) (take n (ushort_triples f))"
proof (induction n arbitrary: f)
  case 0
  show ?case by simp
next
  case (Suc n)
  show ?case
  proof (cases "length f < 6")
    case True
    then have "ushort_triples f = []"
      by (simp add: ushort_triples.simps)
    moreover have "sample_faces nv (Suc n) f = []"
      using True by (auto simp: read_ushort_eq)
    ultimately show ?thesis by simp
  next
    case False
    then have t: "ushort_triples f
        = (unpack_ushort (take 2 f), unpack_ushort (take 2 (drop 2 f)),
           unpack_ushort (take 2 (drop 4 f))) # ushort_triples (drop 6 f)"
      by (subst ushort_triples.simps) simp
    have r: "read_ushort f = Inr (unpack_ushort (take 2 f), drop 2 f)"
      "read_ushort (drop 2 f) = Inr (unpack_ushort (take 2 (drop 2 f)), drop 4 f)"
      "read_ushort (drop 4 f) = Inr (unpack_ushort (take 2 (drop 4 f)), drop 6 f)"
      using False by (simp_all add: read_ushort_eq)
    show ?thesis
      by (simp add: t r face_ok_def Suc.IH)
  qed
qed

lemma sample_faces_in_range:
  "t \<in> set (sample_faces nv n f) \<Longrightarrow> face_ok nv t"
  unfolding sample_faces_eq by (rule set_takeWhileD [THEN conjunct2])


lemma parse_p3d_header_Some:
  "parse_p3d_header (Some content) = Some h \<Longrightarrow>
     format h = take 4 content \<and> 8 \<le> length content
     \<and> (take 4 content = ''MLOD'' \<or> take 4 content = ''ODOL'')"
  by (auto simp: parse_p3d_header_def read_ulong_eq Let_def split: if_splits)

lemma parse_p3d_header_recognized:
  assumes "take 4 content = ''MLOD'' \<or> take 4 content = ''ODOL''" and "8 \<le> length content"
  shows "parse_p3d_header (Some content)
           = Some \<lparr>format = take 4 content, version = unpack_ulong (take 4 (drop 4 content)),
                   file_size = length content\<rparr>"
  using assms by (auto simp: parse_p3d_header_def read_ulong_eq Let_def)

lemma get_basic_model_info_odol:
  assumes "take 4 content = ''ODOL''" and "8 \<le> length content"
  shows "get_basic_model_info p (Some content)
           = (Some \<lparr>path = p, format_type = ''ODOL'',
                    vertices = sample_vertices 50 (drop 200 content),
                    faces = sample_faces (length (sample_vertices 50 (drop 200 content)))
                              (min (length (sample_vertices 50 (drop 200 content)) div 3) 150)
                              (drop 400 content),
                    is_valid = (sample_vertices 50 (drop 200 content) \<noteq> []),
                    geometry_loaded = (sample_vertices 50 (drop 200 content) \<noteq> [])\<rparr>,
              [ODOL_sampler])"
proof -
  have v: "is_valid_p3d (Some content)"
    using assms(1) by (simp add: is_valid_p3d_def)
  have h: "parse_p3d_header (Some content)
             = Some \<lparr>format = ''ODOL'', version = unpack_ulong (take 4 (drop 4 content)),
                     file_size = length content\<rparr>"
    using parse_p3d_header_recognized [of content] assms by simp
  show ?thesis
    by (simp add: get_basic_model_info_def v h parse_odol_geometry_def new_model_def Let_def)
qed

lemma get_basic_model_info_mlod:
  assumes "take 4 content = ''MLOD''" and "12 \<le> length content"
  shows "get_basic_model_info p (Some content)
           = (let vs = (if 0 < unpack_ulong (take 4 (drop 8 content))
                        then sample_vertices 100 (drop 100 content) else [])
              in (Some \<lparr>path = p, format_type = ''MLOD'', vertices = vs,
                        faces = sample_faces (length vs) (min (length vs div 3) 200)
                                  (drop 300 content),
                        is_valid = (vs \<noteq> []), geometry_loaded = (vs \<noteq> [])\<rparr>,
                  [MLOD_sampler]))"
proof -
  have v: "is_valid_p3d (Some content)"
    using assms(1) by (simp add: is_valid_p3d_def)
  have h: "parse_p3d_header (Some content)
             = Some \<lparr>format = ''MLOD'', version = unpack_ulong (take 4 (drop 4 content)),
                     file_size = length content\<rparr>"
    using parse_p3d_header_recognized [of content] assms by simp
  have r: "read_ulong (drop 8 content)
             = Inr (unpack_ulong (take 4 (drop 8 content)), drop 12 content)"
    using assms(2) by (simp add: read_ulong_eq)
  show ?thesis
    by (simp add: get_basic_model_info_def v h r parse_mlod_geometry_def new_model_def Let_def)
qed

lemma get_basic_model_info_Some:
  assumes "get_basic_model_info p (Some content) = (Some m, calls)"
  shows "(take 4 content = ''ODOL'' \<and> 8 \<le> length content)
         \<or> (take 4 content = ''MLOD'' \<and> 12 \<le> length content)"
proof -
  from assms obtain h where h: "parse_p3d_header (Some content) = Some h"
    by (auto simp: get_basic_model_info_def split: if_splits option.splits)
  note f = parse_p3d_header_Some [OF h]
  show ?thesis
  proof (cases "take 4 content = ''MLOD''")
    case True
    have "\<not> length (drop 8 content) < 4"
      using assms h f True
      by (auto simp: get_basic_model_info_def parse_mlod_geometry_def read_ulong_eq
          split: if_splits)
    then show ?thesis using True by simp
  next
    case False
    then show ?thesis using f by simp
  qed
qed

text \<open>
  Claim C7. In every model \<open>get_basic_model_info\<close> returns, each face is a triple of
  indices below the number of sampled vertices. The face list is the longest run of such
  triples at the head of the candidates read from the face offset (300 for MLOD, 400 for
  ODOL), at most \<open>min(len(vertices) // 3, cap)\<close> of them (cap 200 for MLOD, 150 for
  ODOL): a triple after the first out-of-range one is never accepted.
\<close>

theorem faces_index_sampled_vertices:
  assumes "get_basic_model_info p3d_path (Some content) = (Some m, calls)"
  shows "(\<forall>(idx1, idx2, idx3) \<in> set (faces m).
            idx1 < length (vertices m) \<and> idx2 < length (vertices m)
            \<and> idx3 < length (vertices m))
         \<and> faces m
             = takeWhile (\<lambda>(idx1, idx2, idx3).
                   idx1 < length (vertices m) \<and> idx2 < length (vertices m)
                   \<and> idx3 < length (vertices m))
                 (take (min (length (vertices m) div 3)
                          (if take 4 content = ''MLOD'' then 200 else 150))
                    (ushort_triples
                       (drop (if take 4 content = ''MLOD'' then 300 else 400) content)))"
proof -
  have fo: "face_ok n = (\<lambda>(idx1, idx2, idx3). idx1 < n \<and> idx2 < n \<and> idx3 < n)" for n
    by (auto simp: face_ok_def fun_eq_iff)
  from get_basic_model_info_Some [OF assms]
  have eq: "faces m
             = takeWhile (face_ok (length (vertices m)))
                 (take (min (length (vertices m) div 3)
                          (if take 4 content = ''MLOD'' then 200 else 150))
                    (ushort_triples
                       (drop (if take 4 content = ''MLOD'' then 300 else 400) content)))"
  proof
    assume a: "take 4 content = ''ODOL'' \<and> 8 \<le> length content"
    then have "take 4 content \<noteq> ''MLOD''" by simp
    then show ?thesis
      using assms get_basic_model_info_odol [of content p3d_path] a
      by (auto simp: sample_faces_eq)
  next
    assume a: "take 4 content = ''MLOD'' \<and> 12 \<le> length content"
    then show ?thesis
      using assms get_basic_model_info_mlod [of content p3d_path]
      by (auto simp: sample_faces_eq Let_def)
  qed
  have "\<forall>t \<in> set (faces m). face_ok (length (vertices m)) t"
    by (subst eq) (auto dest: set_takeWhileD)
  then show ?thesis
    using eq unfolding fo by blast
qed


subsection \<open>Example model files\<close>

definition pack_ushort :: "nat \<Rightarrow> bytes" where
  "pack_ushort n = [char_of n, char_of (n div 256)]"

definition vertex_bytes :: "vertex \<Rightarrow> bytes" where
  "vertex_bytes v = (case v of (x, y, z) \<Rightarrow> pack_ulong x @ pack_ulong y @ pack_ulong z)"

definition face_bytes :: "face \<Rightarrow> bytes" where
  "face_bytes t = (case t of (a, b, c) \<Rightarrow> pack_ushort a @ pack_ushort b @ pack_ushort c)"

lemma length_pack_ulong [simp]: "length (pack_ulong n) = 4"
  by (simp add: pack_ulong_def)

lemma length_vertex_bytes [simp]: "length (vertex_bytes v) = 12"
  by (cases v) (simp add: vertex_bytes_def)

lemma length_face_bytes [simp]: "length (face_bytes t) = 6"
  by (cases t) (simp add: face_bytes_def pack_ushort_def)

lemma float_triples_Nil [simp]: "float_triples [] = []"
  by (simp add: float_triples.simps)

lemma ushort_triples_Nil [simp]: "ushort_triples [] = []"
  by (simp add: ushort_triples.simps)

lemma float_triples_vertex_bytes:
  assumes "x < 2 ^ 32" "y < 2 ^ 32" "z < 2 ^ 32"
  shows "float_triples (vertex_bytes (x, y, z) @ rest) = (x, y, z) # float_triples rest"
  using assms
  by (subst float_triples.simps) (simp add: vertex_bytes_def unpack_pack_ulong)

lemma unpack_pack_ushort: "n < 65536 \<Longrightarrow> unpack_ushort (pack_ushort n) = n"
proof -
  assume a: "n < 65536"
  then have "n div 256 < 256" by simp
  then have "n div 256 mod 256 = n div 256" by simp
  then show ?thesis
    by (simp add: unpack_ushort_def pack_ushort_def)
qed

lemma ushort_triples_face_bytes:
  assumes "a < 65536" "b < 65536" "c < 65536"
  shows "ushort_triples (face_bytes (a, b, c) @ rest) = (a, b, c) # ushort_triples rest"
proof -
  have l: "length (pack_ushort n) = 2" for n
    by (simp add: pack_ushort_def)
  show ?thesis
    using assms
    by (subst ushort_triples.simps) (simp add: face_bytes_def unpack_pack_ushort l)
qed

text \<open>The singles 1.0, 2.0, 3.0, then 0.5 three times, then -1.0, 0.0, 3.0; and 2000.0.\<close>

definition v0 :: vertex where "v0 = (0x3F800000, 0x40000000, 0x40400000)"
definition v1 :: vertex where "v1 = (0x3F000000, 0x3F000000, 0x3F000000)"
definition v2 :: vertex where "v2 = (0xBF800000, 0, 0x40400000)"
definition v_far :: vertex where "v_far = (0x44FA0000, 0, 0)"

definition odol_example :: bytes where
  "odol_example =
     ''ODOL'' @ pack_ulong 1 @ replicate 192 (CHR 0x00)
       @ vertex_bytes v0 @ vertex_bytes v1 @ vertex_bytes v2 @ vertex_bytes v_far
       @ replicate 152 (CHR 0x00) @ face_bytes (0, 1, 2) @ face_bytes (0, 5, 0)"

lemma vertex_ok_examples:
  "vertex_ok v0" "vertex_ok v1" "vertex_ok v2" "\<not> vertex_ok v_far"
  by (simp_all add: vertex_ok_def v0_def v1_def v2_def v_far_def abs_lt_1000_def Let_def)

lemma odol_example_magic: "take 4 odol_example = ''ODOL''" "8 \<le> length odol_example"
  by (simp_all add: odol_example_def)

lemma odol_example_vertices:
  "\<exists>rest. float_triples (drop 200 odol_example) = v0 # v1 # v2 # v_far # rest"
proof -
  have "drop 200 odol_example
          = vertex_bytes v0 @ vertex_bytes v1 @ vertex_bytes v2 @ vertex_bytes v_far
              @ replicate 152 (CHR 0x00) @ face_bytes (0, 1, 2) @ face_bytes (0, 5, 0)"
    by (simp add: odol_example_def)
  then show ?thesis
    by (simp add: v0_def v1_def v2_def v_far_def float_triples_vertex_bytes)
qed

lemma odol_example_faces:
  "ushort_triples (drop 400 odol_example) = [(0, 1, 2), (0, 5, 0)]"
proof -
  have "drop 400 odol_example = face_bytes (0, 1, 2) @ face_bytes (0, 5, 0) @ []"
    by (simp add: odol_example_def)
  then show ?thesis
    by (simp add: ushort_triples_face_bytes ushort_triples_face_bytes [of _ _ _ "[]", simplified])
qed


lemma odol_example_sampled: "sample_vertices 50 (drop 200 odol_example) = [v0, v1, v2]"
proof -
  obtain rest where "float_triples (drop 200 odol_example) = v0 # v1 # v2 # v_far # rest"
    using odol_example_vertices by blast
  then show ?thesis
    by (simp add: sample_vertices_eq vertex_ok_examples)
qed

theorem faces_index_sampled_vertices_witness:
  "\<exists>m. get_basic_model_info ''a.p3d'' (Some odol_example) = (Some m, [ODOL_sampler])
     \<and> vertices m = [v0, v1, v2]
     \<and> ushort_triples (drop 400 odol_example) = [(0, 1, 2), (0, 5, 0)]
     \<and> faces m = [(0, 1, 2)]"
proof -
  obtain m where m: "get_basic_model_info ''a.p3d'' (Some odol_example) = (Some m, [ODOL_sampler])"
    and v: "vertices m = sample_vertices 50 (drop 200 odol_example)"
    using get_basic_model_info_odol [OF odol_example_magic, of "''a.p3d''"] by simp
  have v': "vertices m = [v0, v1, v2]"
    using v odol_example_sampled by simp
  have "faces m = [(0, 1, 2)]"
    using faces_index_sampled_vertices [OF m, THEN conjunct2]
    by (simp add: v' odol_example_magic odol_example_faces)
  then show ?thesis
    using m v' odol_example_faces by blast
qed

subsection \<open>Vertex sampling\<close>

text \<open>
  That the magnitude of the float with pattern \<open>w\<close> exceeds 1000 (an infinity does, a
  NaN compares false).
\<close>

definition abs_gt_1000 :: "nat \<Rightarrow> bool" where
  "abs_gt_1000 w =
     (let e = (w div 2 ^ 23) mod 256; m = w mod 2 ^ 23
      in if e = 255 then m = 0
         else if e = 0 then False
         else if 150 \<le> e then True
         else 1000 * 2 ^ (150 - e) < 2 ^ 23 + m)"

text \<open>
  Claim C6, as the code has it. For an ODOL file of at least 8 bytes, and for an MLOD file
  of at least 12 bytes whose 32-bit value at offset 8 (the LOD count) is not zero, the
  model is returned and its vertex list is the longest run, at the head of the complete
  3-float tuples from offset 200 (ODOL) or 100 (MLOD) and within the first 50 (ODOL) or
  100 (MLOD) of them, of tuples whose three coordinates are all below 1000 in magnitude.
  So when tuple number \<open>k\<close> (counting from 0, within the cap) is the first with a
  coordinate that is not below 1000, the list is exactly the \<open>k\<close> tuples before it.
\<close>

theorem vertex_sampling_stops:
  assumes "take 4 content = ''MLOD'' \<or> take 4 content = ''ODOL''"
    and "8 \<le> length content"
    and "take 4 content = ''MLOD'' \<longrightarrow>
           12 \<le> length content \<and> 0 < unpack_ulong (take 4 (drop 8 content))"
  shows "\<exists>m. fst (get_basic_model_info p3d_path (Some content)) = Some m
           \<and> vertices m
               = takeWhile vertex_ok
                   (take (if take 4 content = ''MLOD'' then 100 else 50)
                      (float_triples
                         (drop (if take 4 content = ''MLOD'' then 100 else 200) content)))
           \<and> (\<forall>k. k < (if take 4 content = ''MLOD'' then 100 else 50)
                 \<and> k < length (float_triples
                         (drop (if take 4 content = ''MLOD'' then 100 else 200) content))
                 \<and> (\<forall>j < k. vertex_ok (float_triples
                         (drop (if take 4 content = ''MLOD'' then 100 else 200) content) ! j))
                 \<and> \<not> vertex_ok (float_triples
                         (drop (if take 4 content = ''MLOD'' then 100 else 200) content) ! k)
               \<longrightarrow> vertices m
                     = take k (float_triples
                         (drop (if take 4 content = ''MLOD'' then 100 else 200) content)))"
proof -
  let ?cap = "if take 4 content = ''MLOD'' then 100 else 50 :: nat"
  let ?ts = "float_triples (drop (if take 4 content = ''MLOD'' then 100 else 200) content)"
  have ex: "\<exists>m. fst (get_basic_model_info p3d_path (Some content)) = Some m
              \<and> vertices m = takeWhile vertex_ok (take ?cap ?ts)"
  proof (cases "take 4 content = ''MLOD''")
    case True
    with assms(3) have "12 \<le> length content" "0 < unpack_ulong (take 4 (drop 8 content))"
      by simp_all
    then show ?thesis
      using True get_basic_model_info_mlod [of content p3d_path]
      by (simp add: sample_vertices_eq Let_def)
  next
    case False
    with assms(1) have "take 4 content = ''ODOL''" by simp
    then show ?thesis
      using False assms(2) get_basic_model_info_odol [of content p3d_path]
      by (simp add: sample_vertices_eq)
  qed
  have pre: "takeWhile vertex_ok (take ?cap ?ts) = take k ?ts"
    if "k < ?cap" "k < length ?ts" "\<forall>j < k. vertex_ok (?ts ! j)" "\<not> vertex_ok (?ts ! k)" for k
  proof -
    have "takeWhile vertex_ok (take ?cap ?ts) = take k (take ?cap ?ts)"
    proof (rule takeWhile_eq_take_P_nth)
      fix i assume "i < k" "i < length (take ?cap ?ts)"
      then show "vertex_ok (take ?cap ?ts ! i)"
        using that(3) by simp
    next
      assume "k < length (take ?cap ?ts)"
      then show "\<not> vertex_ok (take ?cap ?ts ! k)"
        using that(4) by simp
    qed
    also have "\<dots> = take k ?ts"
      using that(1) by (simp add: min_def)
    finally show ?thesis .
  qed
  from ex obtain m where m: "fst (get_basic_model_info p3d_path (Some content)) = Some m"
    "vertices m = takeWhile vertex_ok (take ?cap ?ts)"
    by blast
  show ?thesis
    using m pre by (intro exI [of _ m]) auto
qed


definition mlod_example :: bytes where
  "mlod_example =
     ''MLOD'' @ pack_ulong 1 @ pack_ulong 1 @ replicate 88 (CHR 0x00)
       @ vertex_bytes v0 @ vertex_bytes v1 @ vertex_bytes v2 @ vertex_bytes v_far
       @ vertex_bytes v0"

lemma mlod_example_facts:
  "take 4 mlod_example = ''MLOD''" "12 \<le> length mlod_example"
  "unpack_ulong (take 4 (drop 8 mlod_example)) = 1"
  "float_triples (drop 100 mlod_example) = [v0, v1, v2, v_far, v0]"
proof -
  show "take 4 mlod_example = ''MLOD''" "12 \<le> length mlod_example"
    by (simp_all add: mlod_example_def)
  have "take 4 (drop 8 mlod_example) = pack_ulong 1"
    by (simp add: mlod_example_def)
  then show "unpack_ulong (take 4 (drop 8 mlod_example)) = 1"
    by (simp add: unpack_pack_ulong)
  have "drop 100 mlod_example
          = vertex_bytes v0 @ vertex_bytes v1 @ vertex_bytes v2 @ vertex_bytes v_far
              @ vertex_bytes v0 @ []"
    by (simp add: mlod_example_def)
  then show "float_triples (drop 100 mlod_example) = [v0, v1, v2, v_far, v0]"
    by (simp only: v0_def v1_def v2_def v_far_def)
      (simp add: float_triples_vertex_bytes float_triples_vertex_bytes [of _ _ _ "[]", simplified])
qed

theorem vertex_sampling_stops_witness:
  "take 4 mlod_example = ''MLOD'' \<and> 12 \<le> length mlod_example
   \<and> 0 < unpack_ulong (take 4 (drop 8 mlod_example))
   \<and> float_triples (drop 100 mlod_example) = [v0, v1, v2, v_far, v0]
   \<and> \<not> vertex_ok v_far
   \<and> map_option vertices (fst (get_basic_model_info ''a.p3d'' (Some mlod_example)))
        = Some [v0, v1, v2]"
proof -
  have h1: "take 4 mlod_example = ''MLOD'' \<or> take 4 mlod_example = ''ODOL''"
    and h2: "8 \<le> length mlod_example"
    and h3: "take 4 mlod_example = ''MLOD'' \<longrightarrow>
               12 \<le> length mlod_example \<and> 0 < unpack_ulong (take 4 (drop 8 mlod_example))"
    using mlod_example_facts(1-3) by simp_all
  obtain m where m: "fst (get_basic_model_info ''a.p3d'' (Some mlod_example)) = Some m"
    and v: "vertices m
              = takeWhile vertex_ok
                  (take (if take 4 mlod_example = ''MLOD'' then 100 else 50)
                     (float_triples
                        (drop (if take 4 mlod_example = ''MLOD'' then 100 else 200)
                           mlod_example)))"
    using vertex_sampling_stops [OF h1 h2 h3, of "''a.p3d''"] by blast
  have "vertices m = [v0, v1, v2]"
    unfolding v by (simp add: mlod_example_facts vertex_ok_examples)
  then show ?thesis
    using m mlod_example_facts vertex_ok_examples by simp
qed

definition v_1000 :: vertex where "v_1000 = (0x447A0000, 0, 0)"

definition mlod_no_lod :: bytes where
  "mlod_no_lod =
     ''MLOD'' @ pack_ulong 1 @ pack_ulong 0 @ replicate 88 (CHR 0x00)
       @ vertex_bytes v0 @ vertex_bytes v_far"

definition odol_exact :: bytes where
  "odol_exact =
     ''ODOL'' @ pack_ulong 1 @ replicate 192 (CHR 0x00) @ vertex_bytes v_1000 @ vertex_bytes v0"

text \<open>
  Two files on which the sampling is not what the claim says. In the first, an MLOD file
  with LOD count 0, the second tuple has the coordinate 2000.0 and the first is in range,
  yet no vertex is returned: the vertex loop runs only under \<open>if lod_count > 0\<close>. In the
  second, an ODOL file, the first tuple has the coordinate 1000.0, which does not exceed
  1000, and sampling stops there all the same: the test is \<open>abs(x) < 1000\<close>.
\<close>

theorem vertex_sampling_counterexample:
  "float_triples (drop 100 mlod_no_lod) = [v0, v_far]
   \<and> vertex_ok v0 \<and> abs_gt_1000 (fst v_far)
   \<and> map_option vertices (fst (get_basic_model_info ''a.p3d'' (Some mlod_no_lod))) = Some []
   \<and> float_triples (drop 200 odol_exact) = [v_1000, v0]
   \<and> v_1000 = (0x447A0000, 0, 0) \<and> \<not> abs_gt_1000 0x447A0000 \<and> \<not> abs_gt_1000 0
   \<and> vertex_ok v0
   \<and> map_option vertices (fst (get_basic_model_info ''a.p3d'' (Some odol_exact))) = Some []"
proof -
  have a1: "take 4 mlod_no_lod = ''MLOD''" "12 \<le> length mlod_no_lod"
    by (simp_all add: mlod_no_lod_def)
  have "take 4 (drop 8 mlod_no_lod) = pack_ulong 0"
    by (simp add: mlod_no_lod_def)
  then have a2: "unpack_ulong (take 4 (drop 8 mlod_no_lod)) = 0"
    by (simp add: unpack_pack_ulong)
  have "drop 100 mlod_no_lod = vertex_bytes v0 @ vertex_bytes v_far @ []"
    by (simp add: mlod_no_lod_def)
  then have a3: "float_triples (drop 100 mlod_no_lod) = [v0, v_far]"
    by (simp only: v0_def v_far_def)
      (simp add: float_triples_vertex_bytes float_triples_vertex_bytes [of _ _ _ "[]", simplified])
  have a4: "map_option vertices (fst (get_basic_model_info ''a.p3d'' (Some mlod_no_lod)))
              = Some []"
    using get_basic_model_info_mlod [OF a1, of "''a.p3d''"] by (simp add: a2)
  have b1: "take 4 odol_exact = ''ODOL''" "8 \<le> length odol_exact"
    by (simp_all add: odol_exact_def)
  have "drop 200 odol_exact = vertex_bytes v_1000 @ vertex_bytes v0 @ []"
    by (simp add: odol_exact_def)
  then have b2: "float_triples (drop 200 odol_exact) = [v_1000, v0]"
    by (simp only: v0_def v_1000_def)
      (simp add: float_triples_vertex_bytes float_triples_vertex_bytes [of _ _ _ "[]", simplified])
  have b3: "\<not> vertex_ok v_1000"
    by (simp add: vertex_ok_def v_1000_def abs_lt_1000_def Let_def)
  have b4: "map_option vertices (fst (get_basic_model_info ''a.p3d'' (Some odol_exact)))
              = Some []"
    using get_basic_model_info_odol [OF b1, of "''a.p3d''"]
    by (simp add: sample_vertices_eq b2 b3)
  have c: "abs_gt_1000 (fst v_far)" "\<not> abs_gt_1000 0x447A0000" "\<not> abs_gt_1000 0"
    by (simp_all add: abs_gt_1000_def v_far_def Let_def)
  show ?thesis
    using a3 a4 b2 b4 c vertex_ok_examples(1) by (simp add: v_1000_def)
qed

section \<open>p3d\_parser.py: class names and model files\<close>

text \<open>
  Class names and paths are Python \<open>str\<close> values. The model covers ASCII text: there
  \<open>str.lower\<close> maps \<open>A\<close>..\<open>Z\<close> to \<open>a\<close>..\<open>z\<close> and nothing else.
\<close>

definition ascii_text :: "string \<Rightarrow> bool" where
  "ascii_text s = list_all (\<lambda>c. (of_char c :: nat) < 128) s"

definition lower_char :: "char \<Rightarrow> char" where
  "lower_char c =
     (case map_of (zip ''ABCDEFGHIJKLMNOPQRSTUVWXYZ'' ''abcdefghijklmnopqrstuvwxyz'') c of
        Some l \<Rightarrow> l
      | None \<Rightarrow> c)"

definition lower :: "string \<Rightarrow> string" where
  "lower s = map lower_char s"

text \<open>\<open>pat in s\<close> on strings: \<open>pat\<close> occurs in \<open>s\<close> as a contiguous run.\<close>

fun contains :: "string \<Rightarrow> string \<Rightarrow> bool" where
  "contains [] pat = (pat = [])"
| "contains (c # cs) pat = (take (length pat) (c # cs) = pat \<or> contains cs pat)"

text \<open>
  \<open>Path(p).stem\<close> of \<open>pathlib\<close> on a POSIX host: the parts of a path are its
  components between separators, empty ones and \<open>.\<close> left out; the name is the last
  part (empty when there is none); the stem is the name up to its last dot, unless that
  dot is the first or the last character of the name.
\<close>

definition path_name :: "string \<Rightarrow> string" where
  "path_name p =
     (let parts = filter (\<lambda>c. c \<noteq> [] \<and> c \<noteq> ''.'') (split_sep p)
      in if parts = [] then [] else last parts)"

definition rfind_dot :: "string \<Rightarrow> nat option" where
  "rfind_dot name =
     (if CHR ''.'' \<in> set name
      then Some (length name - 1 - length (takeWhile (\<lambda>c. c \<noteq> CHR ''.'') (rev name)))
      else None)"

definition stem :: "string \<Rightarrow> string" where
  "stem p =
     (let name = path_name p
      in case rfind_dot name of
           None \<Rightarrow> name
         | Some i \<Rightarrow> if 0 < i \<and> i < length name - 1 then take i name else name)"

text \<open>\<open>s.replace('_', '').replace('-', '')\<close>.\<close>

definition strip_separators :: "string \<Rightarrow> string" where
  "strip_separators s = filter (\<lambda>c. c \<noteq> CHR ''_'' \<and> c \<noteq> CHR ''-'') s"

text \<open>
  The three tests of \<open>map_class_to_p3d\<close> on one candidate path, for the lowered class
  name: equality with the lowered stem; containment, either way, of the names without
  \<open>_\<close> and \<open>-\<close>; occurrence in the lowered stem of \<open>class_lower[:4]\<close> or
  \<open>class_lower[-4:]\<close>, each taken only when it has at least three characters.
\<close>

definition exact_match :: "string \<Rightarrow> string \<Rightarrow> bool" where
  "exact_match class_lower p3d_path = (class_lower = lower (stem p3d_path))"

definition substring_match :: "string \<Rightarrow> string \<Rightarrow> bool" where
  "substring_match class_lower p3d_path =
     (let filename = lower (stem p3d_path);
          clean_class = strip_separators class_lower;
          clean_filename = strip_separators filename
      in contains clean_filename clean_class \<or> contains clean_class clean_filename)"

definition affix_match :: "string \<Rightarrow> string \<Rightarrow> bool" where
  "affix_match class_lower p3d_path =
     (let filename = lower (stem p3d_path)
      in list_ex (\<lambda>pattern. contains filename pattern)
           (filter (\<lambda>pattern. length pattern \<ge> 3)
              [take 4 class_lower, drop (length class_lower - 4) class_lower]))"

text \<open>The first loop, and the second loop with its two \<open>return\<close> statements.\<close>

fun exact_loop :: "string \<Rightarrow> string list \<Rightarrow> string option" where
  "exact_loop class_lower [] = None"
| "exact_loop class_lower (p3d_path # ps) =
     (if exact_match class_lower p3d_path then Some p3d_path
      else exact_loop class_lower ps)"

fun fuzzy_loop :: "string \<Rightarrow> string list \<Rightarrow> string option" where
  "fuzzy_loop class_lower [] = None"
| "fuzzy_loop class_lower (p3d_path # ps) =
     (if substring_match class_lower p3d_path then Some p3d_path
      else if affix_match class_lower p3d_path then Some p3d_path
      else fuzzy_loop class_lower ps)"

definition map_class_to_p3d :: "string \<Rightarrow> string list \<Rightarrow> string option" where
  "map_class_to_p3d class_name p3d_files =
     (let class_lower = lower class_name
      in case exact_loop class_lower p3d_files of
           Some p \<Rightarrow> Some p
         | None \<Rightarrow> fuzzy_loop class_lower p3d_files)"

text \<open>
  The order of the specification: each strategy is tried on all candidates before the
  next one is.
\<close>

definition strategies_in_order :: "string \<Rightarrow> string list \<Rightarrow> string option" where
  "strategies_in_order class_name p3d_files =
     (let class_lower = lower class_name
      in case find (exact_match class_lower) p3d_files of
           Some p \<Rightarrow> Some p
         | None \<Rightarrow>
             (case find (substring_match class_lower) p3d_files of
                Some p \<Rightarrow> Some p
              | None \<Rightarrow> find (affix_match class_lower) p3d_files))"

lemma exact_loop_find: "exact_loop c ps = find (exact_match c) ps"
  by (induction ps) simp_all

lemma fuzzy_loop_find:
  "fuzzy_loop c ps = find (\<lambda>p. substring_match c p \<or> affix_match c p) ps"
  by (induction ps) simp_all

lemmas match_defs =
  exact_match_def substring_match_def affix_match_def stem_def path_name_def rfind_dot_def
  lower_def lower_char_def strip_separators_def

text \<open>
  Class \<open>abcdefgh\<close>, candidates \<open>xxabcdxx.p3d\<close> and \<open>abcdefgh_lod.p3d\<close> in that
  order. The first matches by affix only, the second by containment. Trying containment on
  all candidates before the affix test gives the second; the code returns the first.
\<close>

theorem map_class_to_p3d_counterexample:
  "map_class_to_p3d ''abcdefgh'' [''xxabcdxx.p3d'', ''abcdefgh_lod.p3d'']
     = Some ''xxabcdxx.p3d''
   \<and> strategies_in_order ''abcdefgh'' [''xxabcdxx.p3d'', ''abcdefgh_lod.p3d'']
       = Some ''abcdefgh_lod.p3d''
   \<and> lower ''abcdefgh'' = ''abcdefgh''
   \<and> \<not> exact_match ''abcdefgh'' ''xxabcdxx.p3d''
   \<and> \<not> substring_match ''abcdefgh'' ''xxabcdxx.p3d''
   \<and> affix_match ''abcdefgh'' ''xxabcdxx.p3d''
   \<and> \<not> exact_match ''abcdefgh'' ''abcdefgh_lod.p3d''
   \<and> substring_match ''abcdefgh'' ''abcdefgh_lod.p3d''"
  by (simp add: map_class_to_p3d_def strategies_in_order_def match_defs)

text \<open>
  Claim C9, as the code has it. Exact case-insensitive stem equality is tried on all
  candidates first and the first candidate that matches is returned. Failing that, the
  candidates are walked once more in file order, and the first that passes the
  containment test or the affix test is returned; the two tests are not separate passes.
  When no candidate passes any test the result is \<open>None\<close>.
\<close>

theorem map_class_to_p3d_first_match:
  assumes "ascii_text class_name" and "list_all ascii_text p3d_files"
  shows "((\<exists>p \<in> set p3d_files. exact_match (lower class_name) p) \<longrightarrow>
            (\<exists>i < length p3d_files.
               map_class_to_p3d class_name p3d_files = Some (p3d_files ! i)
               \<and> exact_match (lower class_name) (p3d_files ! i)
               \<and> (\<forall>j < i. \<not> exact_match (lower class_name) (p3d_files ! j))))
         \<and> ((\<forall>p \<in> set p3d_files. \<not> exact_match (lower class_name) p)
              \<and> (\<exists>p \<in> set p3d_files. substring_match (lower class_name) p
                                         \<or> affix_match (lower class_name) p) \<longrightarrow>
            (\<exists>i < length p3d_files.
               map_class_to_p3d class_name p3d_files = Some (p3d_files ! i)
               \<and> (substring_match (lower class_name) (p3d_files ! i)
                    \<or> affix_match (lower class_name) (p3d_files ! i))
               \<and> (\<forall>j < i. \<not> substring_match (lower class_name) (p3d_files ! j)
                           \<and> \<not> affix_match (lower class_name) (p3d_files ! j))))
         \<and> ((\<forall>p \<in> set p3d_files. \<not> exact_match (lower class_name) p
                 \<and> \<not> substring_match (lower class_name) p
                 \<and> \<not> affix_match (lower class_name) p) \<longrightarrow>
            map_class_to_p3d class_name p3d_files = None)"
proof (intro conjI impI)
  let ?c = "lower class_name"
  assume "\<exists>p \<in> set p3d_files. exact_match ?c p"
  then obtain p where f: "find (exact_match ?c) p3d_files = Some p"
    by (cases "find (exact_match ?c) p3d_files") (auto simp: find_None_iff)
  then obtain i where "i < length p3d_files" "exact_match ?c (p3d_files ! i)"
    "p = p3d_files ! i" "\<forall>j < i. \<not> exact_match ?c (p3d_files ! j)"
    unfolding find_Some_iff by blast
  moreover have "map_class_to_p3d class_name p3d_files = Some p"
    using f by (simp add: map_class_to_p3d_def exact_loop_find)
  ultimately show "\<exists>i < length p3d_files.
               map_class_to_p3d class_name p3d_files = Some (p3d_files ! i)
               \<and> exact_match ?c (p3d_files ! i)
               \<and> (\<forall>j < i. \<not> exact_match ?c (p3d_files ! j))"
    by blast
next
  let ?c = "lower class_name"
  let ?P = "\<lambda>p. substring_match ?c p \<or> affix_match ?c p"
  assume a: "(\<forall>p \<in> set p3d_files. \<not> exact_match ?c p) \<and> (\<exists>p \<in> set p3d_files. ?P p)"
  then have n: "find (exact_match ?c) p3d_files = None"
    by (simp add: find_None_iff)
  from a obtain p where "find ?P p3d_files = Some p"
    by (cases "find ?P p3d_files") (auto simp: find_None_iff)
  then obtain i where "i < length p3d_files" "?P (p3d_files ! i)" "p = p3d_files ! i"
    "\<forall>j < i. \<not> ?P (p3d_files ! j)"
    unfolding find_Some_iff by blast
  moreover have "map_class_to_p3d class_name p3d_files = Some p"
    using n \<open>find ?P p3d_files = Some p\<close>
    by (simp add: map_class_to_p3d_def exact_loop_find fuzzy_loop_find)
  ultimately show "\<exists>i < length p3d_files.
               map_class_to_p3d class_name p3d_files = Some (p3d_files ! i)
               \<and> ?P (p3d_files ! i)
               \<and> (\<forall>j < i. \<not> substring_match ?c (p3d_files ! j)
                           \<and> \<not> affix_match ?c (p3d_files ! j))"
    by blast
next
  let ?c = "lower class_name"
  assume "\<forall>p \<in> set p3d_files. \<not> exact_match ?c p \<and> \<not> substring_match ?c p
            \<and> \<not> affix_match ?c p"
  then have "find (exact_match ?c) p3d_files = None"
    "find (\<lambda>p. substring_match ?c p \<or> affix_match ?c p) p3d_files = None"
    by (simp_all add: find_None_iff)
  then show "map_class_to_p3d class_name p3d_files = None"
    by (simp add: map_class_to_p3d_def exact_loop_find fuzzy_loop_find)
qed

theorem map_class_to_p3d_first_match_witness:
  "ascii_text ''M4A1'' \<and> list_all ascii_text [''mods/other.p3d'', ''mods/m4a1_reload.p3d'']
   \<and> \<not> exact_match (lower ''M4A1'') ''mods/other.p3d''
   \<and> \<not> exact_match (lower ''M4A1'') ''mods/m4a1_reload.p3d''
   \<and> \<not> substring_match (lower ''M4A1'') ''mods/other.p3d''
   \<and> \<not> affix_match (lower ''M4A1'') ''mods/other.p3d''
   \<and> substring_match (lower ''M4A1'') ''mods/m4a1_reload.p3d''
   \<and> map_class_to_p3d ''M4A1'' [''mods/other.p3d'', ''mods/m4a1_reload.p3d'']
       = Some ''mods/m4a1_reload.p3d''"
proof -
  let ?fs = "[''mods/other.p3d'', ''mods/m4a1_reload.p3d'']"
  have h1: "ascii_text ''M4A1''" and h2: "list_all ascii_text ?fs"
    by (simp_all add: ascii_text_def)
  have e: "\<not> exact_match (lower ''M4A1'') ''mods/other.p3d''"
    "\<not> exact_match (lower ''M4A1'') ''mods/m4a1_reload.p3d''"
    by (simp_all add: match_defs)
  have o: "\<not> substring_match (lower ''M4A1'') ''mods/other.p3d''"
    "\<not> affix_match (lower ''M4A1'') ''mods/other.p3d''"
    by (simp_all add: match_defs)
  have m: "substring_match (lower ''M4A1'') ''mods/m4a1_reload.p3d''"
    by (simp add: match_defs)
  have pre: "(\<forall>p \<in> set ?fs. \<not> exact_match (lower ''M4A1'') p)
             \<and> (\<exists>p \<in> set ?fs. substring_match (lower ''M4A1'') p
                                \<or> affix_match (lower ''M4A1'') p)"
    using e m by simp
  from map_class_to_p3d_first_match [OF h1 h2, THEN conjunct2, THEN conjunct1, rule_format,
      OF pre]
  obtain i where i: "i < length ?fs" "map_class_to_p3d ''M4A1'' ?fs = Some (?fs ! i)"
    "substring_match (lower ''M4A1'') (?fs ! i) \<or> affix_match (lower ''M4A1'') (?fs ! i)"
    by blast
  have "i \<noteq> 0"
    using i(3) o by (auto intro: ccontr)
  then have "i = 1"
    using i(1) by simp
  then have "map_class_to_p3d ''M4A1'' ?fs = Some ''mods/m4a1_reload.p3d''"
    using i(2) by simp
  then show ?thesis
    using h1 h2 e o m by blast
qed

section \<open>config\_parser.py: the configuration scan\<close>









































end
